theory Spec2Isabelle
  imports Complex_Main
begin

section \<open>The chat state store (src/lib/chat-store.ts)\<close>

subsection \<open>Data model\<close>

text \<open>
  \<^verbatim>\<open>interface User { id: string; username: string; color: string; lastSeen: number }\<close>
  The field \<open>id\<close> is \<open>uid\<close> here (\<open>id\<close> is the identity function of HOL).
  \<open>lastSeen\<close> holds a value of \<open>Date.now()\<close>, an integer number of milliseconds.
\<close>

record User =
  uid :: string
  username :: string
  color :: string
  lastSeen :: int

text \<open>
  \<^verbatim>\<open>interface Message { id; username; content; timestamp: Date; type: 'user' | 'system'; color }\<close>
  The fields are prefixed with \<open>m\<close> where the name is taken by \<open>User\<close>; the
  timestamp is the millisecond value of the \<open>Date\<close>.
\<close>

datatype msg_type = UserMsg | SystemMsg

record Message =
  mid :: string
  musername :: string
  content :: string
  timestamp :: int
  mtype :: msg_type
  mcolor :: string

text \<open>
  \<^verbatim>\<open>var chatStore: { users: Map<string, User>; messages: Message[] } | undefined\<close>
  A JavaScript \<open>Map\<close> iterates in insertion order and \<open>addUser\<close> searches it in
  that order, so the map is an association list: keys pairwise distinct, new keys at the end.
\<close>

record chatStore =
  users :: "(string \<times> User) list"
  messages :: "Message list"

text \<open>
  The three sources of non-determinism are inputs of the model: the string returned by
  \<open>generateId()\<close> (\<^verbatim>\<open>Math.random().toString(36).substr(2, 9)\<close>, any string of at
  most nine base-36 digits, the empty string when the draw is 0), the number returned by
  the \<open>Math.random()\<close> call of \<open>getRandomColor\<close>, and the value of \<open>Date.now()\<close>.
\<close>

record env =
  gen_id :: string
  math_random :: rat
  date_now :: int

subsection \<open>The operations of \<open>Map\<close> and \<open>Array\<close> the store uses\<close>

text \<open>\<open>Map.get\<close>: the value under a key, \<open>None\<close> for \<open>undefined\<close>.\<close>

definition Map_get :: "('k \<times> 'v) list \<Rightarrow> 'k \<Rightarrow> 'v option" where
  "Map_get m k = map_of m k"

text \<open>\<open>Map.set\<close>: an existing key keeps its place and takes the new value, a new key goes last.\<close>

fun Map_set :: "'k \<Rightarrow> 'v \<Rightarrow> ('k \<times> 'v) list \<Rightarrow> ('k \<times> 'v) list" where
  "Map_set k v [] = [(k, v)]"
| "Map_set k v (p # m) = (if fst p = k then (k, v) # m else p # Map_set k v m)"

text \<open>\<open>Map.delete\<close>: removes the entry under the key, if any.\<close>

fun Map_delete :: "'k \<Rightarrow> ('k \<times> 'v) list \<Rightarrow> ('k \<times> 'v) list" where
  "Map_delete k [] = []"
| "Map_delete k (p # m) = (if fst p = k then Map_delete k m else p # Map_delete k m)"

text \<open>\<open>Array.findIndex\<close>: the first position that satisfies the test, \<open>None\<close> for \<open>-1\<close>.\<close>

fun findIndex :: "('a \<Rightarrow> bool) \<Rightarrow> 'a list \<Rightarrow> nat option" where
  "findIndex P [] = None"
| "findIndex P (x # xs) = (if P x then Some 0 else map_option Suc (findIndex P xs))"

subsection \<open>\<open>getStore\<close>, \<open>getRandomColor\<close>\<close>

definition getStore :: "chatStore option \<Rightarrow> chatStore" where
  "getStore g = (case g of None \<Rightarrow> \<lparr>users = [], messages = []\<rparr> | Some s \<Rightarrow> s)"

definition colors :: "string list" where
  "colors = [''#e74c3c'', ''#3498db'', ''#2ecc71'', ''#9b59b6'',
             ''#f39c12'', ''#1abc9c'', ''#e67e22'', ''#34495e'']"

text \<open>
  \<^verbatim>\<open>colors[Math.floor(Math.random() * colors.length)]\<close>.
  \<open>Math.random()\<close> returns a double in \<open>[0, 1)\<close>; multiplying a double by 8 is exact, so
  the floor is the floor of the rational product. The index is within the palette exactly
  for draws in \<open>[0, 1)\<close>, which is what \<open>random_ok\<close> says of an environment.
\<close>

definition getRandomColor :: "rat \<Rightarrow> string" where
  "getRandomColor r = colors ! nat \<lfloor>r * of_nat (length colors)\<rfloor>"

definition random_ok :: "env \<Rightarrow> bool" where
  "random_ok e = (0 \<le> math_random e \<and> math_random e < 1)"

subsection \<open>The store operations\<close>

text \<open>
  \<open>addUser\<close>: \<^verbatim>\<open>Array.from(this.users.values()).find(u => u.username === username)\<close>
  is the first user of that name in insertion order; assigning its \<open>lastSeen\<close> changes the
  object held by the map at that position. Otherwise a new user is stored under its own id.
  The result is the returned user and the store after the call.
\<close>

definition addUser :: "chatStore \<Rightarrow> string \<Rightarrow> env \<Rightarrow> User \<times> chatStore" where
  "addUser s name e =
     (case findIndex (\<lambda>u. username u = name) (map snd (users s)) of
        Some i \<Rightarrow>
          (let existingUser = (snd (users s ! i))\<lparr>lastSeen := date_now e\<rparr>
           in (existingUser, s\<lparr>users := (users s)[i := (fst (users s ! i), existingUser)]\<rparr>))
      | None \<Rightarrow>
          (let user = \<lparr>uid = gen_id e, username = name,
                       color = getRandomColor (math_random e), lastSeen = date_now e\<rparr>
           in (user, s\<lparr>users := Map_set (uid user) user (users s)\<rparr>)))"

definition removeUser :: "chatStore \<Rightarrow> string \<Rightarrow> chatStore" where
  "removeUser s userId = s\<lparr>users := Map_delete userId (users s)\<rparr>"

definition getUser :: "chatStore \<Rightarrow> string \<Rightarrow> User option" where
  "getUser s userId = Map_get (users s) userId"

definition timeout :: int where
  "timeout = 30000"

text \<open>
  \<open>getOnlineUsers\<close>: the loop visits the entries of the map and deletes, by key, each
  one whose user is stale. Deleting the entry being visited does not disturb a \<open>Map\<close>
  iteration, so the loop visits every entry the map had when it started.
\<close>

definition sweep :: "int \<Rightarrow> (string \<times> User) list \<Rightarrow> (string \<times> User) list" where
  "sweep now m =
     fold (\<lambda>entry acc. if now - lastSeen (snd entry) > timeout then Map_delete (fst entry) acc else acc) m m"

definition getOnlineUsers :: "chatStore \<Rightarrow> int \<Rightarrow> User list \<times> chatStore" where
  "getOnlineUsers s now =
     (let s' = s\<lparr>users := sweep now (users s)\<rparr> in (map snd (users s'), s'))"

text \<open>\<open>updateUserSeen\<close>: assigns \<open>lastSeen\<close> of the object under the key, if there is one.\<close>

definition updateUserSeen :: "chatStore \<Rightarrow> string \<Rightarrow> int \<Rightarrow> chatStore" where
  "updateUserSeen s userId now =
     (case Map_get (users s) userId of
        Some user \<Rightarrow> s\<lparr>users := Map_set userId (user\<lparr>lastSeen := now\<rparr>) (users s)\<rparr>
      | None \<Rightarrow> s)"

text \<open>
  \<open>addMessage\<close>: \<open>push\<close>, then one \<open>shift\<close> when the length exceeds 100. The parameter
  \<open>type\<close> defaults to \<open>'user'\<close> when the caller leaves it out (\<open>None\<close>).
\<close>

definition addMessage ::
    "chatStore \<Rightarrow> string \<Rightarrow> string \<Rightarrow> string \<Rightarrow> msg_type option \<Rightarrow> env \<Rightarrow> Message \<times> chatStore" where
  "addMessage s name text col ty e =
     (let message = \<lparr>mid = gen_id e, musername = name, content = text, timestamp = date_now e,
                     mtype = (case ty of None \<Rightarrow> UserMsg | Some t \<Rightarrow> t), mcolor = col\<rparr>;
          pushed = messages s @ [message]
      in (message, s\<lparr>messages := (if length pushed > 100 then tl pushed else pushed)\<rparr>))"

definition addSystemMessage :: "chatStore \<Rightarrow> string \<Rightarrow> env \<Rightarrow> Message \<times> chatStore" where
  "addSystemMessage s text e = addMessage s ''System'' text ''#666666'' (Some SystemMsg) e"

definition getMessages :: "chatStore \<Rightarrow> Message list" where
  "getMessages s = messages s"

record stats =
  onlineUsers :: nat
  totalMessages :: nat
  userMessages :: nat

text \<open>\<open>getStats\<close>: the object literal evaluates \<open>getOnlineUsers()\<close> first, which sweeps.\<close>

definition getStats :: "chatStore \<Rightarrow> int \<Rightarrow> stats \<times> chatStore" where
  "getStats s now =
     (let (online, s') = getOnlineUsers s now
      in (\<lparr>onlineUsers = length online,
           totalMessages = length (messages s'),
           userMessages = length (filter (\<lambda>m. mtype m = UserMsg) (messages s'))\<rparr>, s'))"

subsection \<open>Sequences of store operations\<close>

text \<open>
  Every change of the store goes through one of its methods; the route handlers only call
  them (and read \<open>store.users\<close>). An \<open>op\<close> is one call with its arguments and the
  environment values it draws; \<open>step\<close> is the store after the call.
\<close>

datatype op =
    AddUser string env
  | RemoveUser string
  | GetUser string
  | GetOnlineUsers int
  | UpdateUserSeen string int
  | AddMessage string string string "msg_type option" env
  | AddSystemMessage string env
  | GetMessages
  | GetStats int

fun step :: "chatStore \<Rightarrow> op \<Rightarrow> chatStore" where
  "step s (AddUser name e) = snd (addUser s name e)"
| "step s (RemoveUser userId) = removeUser s userId"
| "step s (GetUser userId) = s"
| "step s (GetOnlineUsers now) = snd (getOnlineUsers s now)"
| "step s (UpdateUserSeen userId now) = updateUserSeen s userId now"
| "step s (AddMessage name text col ty e) = snd (addMessage s name text col ty e)"
| "step s (AddSystemMessage text e) = snd (addSystemMessage s text e)"
| "step s GetMessages = s"
| "step s (GetStats now) = snd (getStats s now)"

fun run :: "chatStore \<Rightarrow> op list \<Rightarrow> chatStore" where
  "run s [] = s"
| "run s (c # cs) = run (step s c) cs"

text \<open>The draws of \<open>Math.random()\<close> that an operation uses for a color lie in \<open>[0, 1)\<close>.\<close>

fun op_ok :: "op \<Rightarrow> bool" where
  "op_ok (AddUser name e) = random_ok e"
| "op_ok _ = True"

fun is_addUser :: "op \<Rightarrow> bool" where
  "is_addUser (AddUser name e) = True"
| "is_addUser _ = False"

text \<open>The message an operation creates (none for most), and those a sequence creates.\<close>

fun created_by :: "chatStore \<Rightarrow> op \<Rightarrow> Message list" where
  "created_by s (AddMessage name text col ty e) = [fst (addMessage s name text col ty e)]"
| "created_by s (AddSystemMessage text e) = [fst (addSystemMessage s text e)]"
| "created_by s _ = []"

fun created :: "chatStore \<Rightarrow> op list \<Rightarrow> Message list" where
  "created s [] = []"
| "created s (c # cs) = created_by s c @ created (step s c) cs"

text \<open>The strings \<open>generateId()\<close> returned to the message-creating calls of a sequence.\<close>

fun drawn_id :: "op \<Rightarrow> string list" where
  "drawn_id (AddMessage name text col ty e) = [gen_id e]"
| "drawn_id (AddSystemMessage text e) = [gen_id e]"
| "drawn_id _ = []"

text \<open>The user record an operation creates: \<open>addUser\<close> with a name nobody in the map has.\<close>

fun new_user :: "chatStore \<Rightarrow> op \<Rightarrow> User option" where
  "new_user s (AddUser name e) =
     (case findIndex (\<lambda>u. username u = name) (map snd (users s)) of
        None \<Rightarrow> Some (fst (addUser s name e))
      | Some i \<Rightarrow> None)"
| "new_user s _ = None"

text \<open>A sequence of \<open>addMessage\<close> calls: the messages returned, in call order, and the store.\<close>

type_synonym msg_call = "string \<times> string \<times> string \<times> msg_type option \<times> env"

fun addMessages :: "chatStore \<Rightarrow> msg_call list \<Rightarrow> Message list \<times> chatStore" where
  "addMessages s [] = ([], s)"
| "addMessages s ((name, text, col, ty, e) # cs) =
     (let (m, s') = addMessage s name text col ty e;
          (ms, s'') = addMessages s' cs
      in (m # ms, s''))"

section \<open>The poll handler (the poll endpoint in src/app/api/chat/messages/route.ts)\<close>

text \<open>
  A field of the request body is any JSON value or missing. Only strings can equal an id,
  a username or a key of the map, so the other values are kept as their truthiness alone.
\<close>

datatype jsval = Undefined | Str string | Other bool

fun truthy :: "jsval \<Rightarrow> bool" where
  "truthy Undefined = False"
| "truthy (Str x) = (x \<noteq> [])"
| "truthy (Other b) = b"

record pollBody =
  body_userId :: jsval
  body_username :: jsval
  lastMessageId :: jsval

record pollData =
  newMessages :: "Message list"
  pollUsers :: "User list"
  pollStats :: stats

datatype error = InvalidJSON

text \<open>
  \<^verbatim>\<open>let newMessages = messages
  if (lastMessageId) {
    const lastIndex = messages.findIndex(m => m.id === lastMessageId)
    if (lastIndex !== -1) { newMessages = messages.slice(lastIndex + 1) }
  }\<close>
\<close>

definition pollDelta :: "Message list \<Rightarrow> jsval \<Rightarrow> Message list" where
  "pollDelta msgs cursor =
     (if truthy cursor then
        (case findIndex (\<lambda>m. Str (mid m) = cursor) msgs of
           Some lastIndex \<Rightarrow> drop (lastIndex + 1) msgs
         | None \<Rightarrow> msgs)
      else msgs)"

text \<open>The presence refresh at the head of the handler, at time \<open>t\<close>.\<close>

definition pollSeen :: "chatStore \<Rightarrow> pollBody \<Rightarrow> int \<Rightarrow> chatStore" where
  "pollSeen s body t =
     (if truthy (body_userId body) then
        (case body_userId body of Str k \<Rightarrow> updateUserSeen s k t | _ \<Rightarrow> s)
      else if truthy (body_username body) then
        (case find (\<lambda>u. Str (username u) = body_username body) (map snd (users s)) of
           Some user \<Rightarrow> updateUserSeen s (uid user) t
         | None \<Rightarrow> s)
      else s)"

text \<open>
  The handler: \<open>None\<close> is a body that \<open>request.json()\<close> rejects or that cannot be
  destructured (\<open>null\<close>); the \<open>catch\<close> answers 400. The three times are the values of
  \<open>Date.now()\<close> in \<open>updateUserSeen\<close>, \<open>getOnlineUsers\<close> and \<open>getStats\<close>.
\<close>

definition poll ::
    "chatStore \<Rightarrow> pollBody option \<Rightarrow> int \<Rightarrow> int \<Rightarrow> int \<Rightarrow> (error + pollData) \<times> chatStore" where
  "poll s request t1 t2 t3 =
     (case request of
        None \<Rightarrow> (Inl InvalidJSON, s)
      | Some body \<Rightarrow>
          (let s1 = pollSeen s body t1;
               msgs = getMessages s1;
               (online, s2) = getOnlineUsers s1 t2;
               delta = pollDelta msgs (lastMessageId body);
               (st, s3) = getStats s2 t3
           in (Inr \<lparr>newMessages = delta, pollUsers = online, pollStats = st\<rparr>, s3)))"

section \<open>The event-channel service (mini-services/chat-service/index.ts)\<close>

definition MAX_MESSAGES :: nat where
  "MAX_MESSAGES = 100"

definition createSystemMessage :: "string \<Rightarrow> env \<Rightarrow> Message" where
  "createSystemMessage text e =
     \<lparr>mid = gen_id e, musername = ''System'', content = text, timestamp = date_now e,
      mtype = SystemMsg, mcolor = ''#666666''\<rparr>"

definition createUserMessage :: "string \<Rightarrow> string \<Rightarrow> string \<Rightarrow> env \<Rightarrow> Message" where
  "createUserMessage name text col e =
     \<lparr>mid = gen_id e, musername = name, content = text, timestamp = date_now e,
      mtype = UserMsg, mcolor = col\<rparr>"

text \<open>The service's \<open>addMessage\<close> on its own \<open>messages\<close> array.\<close>

definition service_addMessage :: "Message list \<Rightarrow> Message \<Rightarrow> Message list" where
  "service_addMessage msgs message =
     (let pushed = msgs @ [message]
      in if length pushed > MAX_MESSAGES then tl pushed else pushed)"

section \<open>Invariants of the store\<close>

definition distinct_keys :: "chatStore \<Rightarrow> bool" where
  "distinct_keys s = distinct (map fst (users s))"

definition keyed_by_id :: "chatStore \<Rightarrow> bool" where
  "keyed_by_id s = list_all (\<lambda>entry. uid (snd entry) = fst entry) (users s)"

definition distinct_names :: "chatStore \<Rightarrow> bool" where
  "distinct_names s = distinct (map (\<lambda>entry. username (snd entry)) (users s))"

definition palette_colors :: "chatStore \<Rightarrow> bool" where
  "palette_colors s = list_all (\<lambda>entry. color (snd entry) \<in> set colors) (users s)"

definition log_bounded :: "chatStore \<Rightarrow> bool" where
  "log_bounded s = (length (messages s) \<le> 100)"

text \<open>The invariant every operation keeps, whatever the environment supplies.\<close>

definition wf_store :: "chatStore \<Rightarrow> bool" where
  "wf_store s = (distinct_keys s \<and> keyed_by_id s \<and> distinct_names s \<and> log_bounded s)"

section \<open>Example stores\<close>

definition alice :: User where
  "alice = \<lparr>uid = ''k3x9q'', username = ''Alice'', color = ''#e74c3c'', lastSeen = 1000\<rparr>"

definition bob :: User where
  "bob = \<lparr>uid = ''p07ab'', username = ''Bob'', color = ''#3498db'', lastSeen = 40000\<rparr>"

definition two_users :: chatStore where
  "two_users = \<lparr>users = [(''k3x9q'', alice), (''p07ab'', bob)], messages = []\<rparr>"

text \<open>A store whose log holds 100 messages, numbered from 0.\<close>

definition numbered :: "nat \<Rightarrow> Message" where
  "numbered i = \<lparr>mid = replicate i CHR ''a'', musername = ''Alice'', content = ''hi'',
                  timestamp = int i, mtype = UserMsg, mcolor = ''#e74c3c''\<rparr>"

definition full_store :: chatStore where
  "full_store = \<lparr>users = [], messages = map numbered [0..<100]\<rparr>"

definition env1 :: env where
  "env1 = \<lparr>gen_id = ''x1y2z3'', math_random = 3 / 10, date_now = 50000\<rparr>"

definition env2 :: env where
  "env2 = \<lparr>gen_id = ''q8r7s6'', math_random = 7 / 8, date_now = 51000\<rparr>"

text \<open>A log of three messages, one of them a system notice.\<close>

definition m1 :: Message where
  "m1 = \<lparr>mid = ''aaa111'', musername = ''System'', content = ''Alice joined the chat'',
          timestamp = 1000, mtype = SystemMsg, mcolor = ''#666666''\<rparr>"

definition m2 :: Message where
  "m2 = \<lparr>mid = ''bbb222'', musername = ''Alice'', content = ''hi'',
          timestamp = 2000, mtype = UserMsg, mcolor = ''#e74c3c''\<rparr>"

definition m3 :: Message where
  "m3 = \<lparr>mid = ''ccc333'', musername = ''Bob'', content = ''hello'',
          timestamp = 3000, mtype = UserMsg, mcolor = ''#3498db''\<rparr>"

definition chatting :: chatStore where
  "chatting = \<lparr>users = [(''k3x9q'', alice), (''p07ab'', bob)], messages = [m1, m2, m3]\<rparr>"

text \<open>Alice joins at time 1000 and Bob at time 40000.\<close>

definition join_ops :: "op list" where
  "join_ops = [AddUser ''Alice'' \<lparr>gen_id = ''k3x9q'', math_random = 0, date_now = 1000\<rparr>,
               AddUser ''Bob'' \<lparr>gen_id = ''p07ab'', math_random = 1 / 8, date_now = 40000\<rparr>]"






text \<open>A poll request that only carries a cursor.\<close>

definition cursor_only :: "jsval \<Rightarrow> pollBody" where
  "cursor_only c = \<lparr>body_userId = Undefined, body_username = Undefined, lastMessageId = c\<rparr>"

text \<open>
  A draw of 0 makes \<open>generateId()\<close> return the empty string
  (\<^verbatim>\<open>(0).toString(36).substr(2, 9)\<close>); two equal draws make it return the same string twice.
\<close>

definition zero_draw :: env where
  "zero_draw = \<lparr>gen_id = [], math_random = 0, date_now = 1000\<rparr>"

definition empty_id_log :: "op list" where
  "empty_id_log = [AddMessage ''Alice'' ''hi'' ''#e74c3c'' None zero_draw]"

definition same_draw_log :: "op list" where
  "same_draw_log = [AddMessage ''Alice'' ''one'' ''#e74c3c'' None env1,
                    AddMessage ''Bob'' ''two'' ''#3498db'' None env1,
                    AddSystemMessage ''Bob left the chat'' env2]"

definition msg_one :: Message where
  "msg_one = \<lparr>mid = ''x1y2z3'', musername = ''Alice'', content = ''one'', timestamp = 50000,
               mtype = UserMsg, mcolor = ''#e74c3c''\<rparr>"

definition msg_two :: Message where
  "msg_two = \<lparr>mid = ''x1y2z3'', musername = ''Bob'', content = ''two'', timestamp = 50000,
               mtype = UserMsg, mcolor = ''#3498db''\<rparr>"

definition msg_left :: Message where
  "msg_left = \<lparr>mid = ''q8r7s6'', musername = ''System'', content = ''Bob left the chat'',
                timestamp = 51000, mtype = SystemMsg, mcolor = ''#666666''\<rparr>"

definition msg_empty_id :: Message where
  "msg_empty_id = \<lparr>mid = [], musername = ''Alice'', content = ''hi'', timestamp = 1000,
                    mtype = UserMsg, mcolor = ''#e74c3c''\<rparr>"

section \<open>Facts about the map and array operations\<close>

lemma findIndex_Some:
  "findIndex P xs = Some i \<Longrightarrow> i < length xs \<and> P (xs ! i) \<and> (\<forall>j<i. \<not> P (xs ! j))"
proof (induction xs arbitrary: i)
  case Nil
  then show ?case by simp
next
  case (Cons x xs)
  show ?case
  proof (cases "P x")
    case True
    with Cons.prems show ?thesis by simp
  next
    case False
    with Cons.prems obtain k where k: "findIndex P xs = Some k" "i = Suc k"
      by auto
    from Cons.IH [OF k(1)] False k(2) show ?thesis
      by (auto simp: less_Suc_eq_0_disj)
  qed
qed

lemma findIndex_None: "findIndex P xs = None \<longleftrightarrow> (\<forall>x\<in>set xs. \<not> P x)"
  by (induction xs) auto

lemma findIndex_first:
  "i < length xs \<Longrightarrow> P (xs ! i) \<Longrightarrow> \<forall>j<i. \<not> P (xs ! j) \<Longrightarrow> findIndex P xs = Some i"
proof (induction xs arbitrary: i)
  case Nil
  then show ?case by simp
next
  case (Cons x xs)
  show ?case
  proof (cases i)
    case 0
    with Cons.prems show ?thesis by simp
  next
    case (Suc k)
    with Cons.prems have "\<not> P x" by auto
    moreover from Suc Cons.prems have "findIndex P xs = Some k"
      by (intro Cons.IH) auto
    ultimately show ?thesis using Suc by simp
  qed
qed

lemma Map_delete_filter: "Map_delete k m = filter (\<lambda>p. fst p \<noteq> k) m"
  by (induction m) auto

lemma map_of_Map_set: "map_of (Map_set k v m) = (map_of m)(k \<mapsto> v)"
  by (induction m) (auto simp: fun_eq_iff)

lemma map_of_Map_delete: "map_of (Map_delete k m) = (map_of m)(k := None)"
  by (induction m) (auto simp: fun_eq_iff)

lemma set_Map_set: "set (Map_set k v m) \<subseteq> insert (k, v) (set m)"
  by (induction m) auto

lemma Map_set_mem: "(k, v) \<in> set (Map_set k v m)"
  by (induction m) auto

lemma keys_Map_set:
  "map fst (Map_set k v m) = (if k \<in> fst ` set m then map fst m else map fst m @ [k])"
  by (induction m) auto

lemma distinct_Map_set: "distinct (map fst m) \<Longrightarrow> distinct (map fst (Map_set k v m))"
  by (simp add: keys_Map_set)

lemma list_all_Map_set: "list_all P m \<Longrightarrow> P (k, v) \<Longrightarrow> list_all P (Map_set k v m)"
  by (induction m) auto

lemma distinct_map_Map_set:
  "distinct (map g m) \<Longrightarrow> g (k, v) \<notin> g ` set m \<Longrightarrow> distinct (map g (Map_set k v m))"
proof (induction m)
  case Nil
  then show ?case by simp
next
  case (Cons p m)
  have "g p \<notin> g ` set (Map_set k v m)"
  proof
    assume "g p \<in> g ` set (Map_set k v m)"
    then obtain q where q: "q \<in> set (Map_set k v m)" "g p = g q" by auto
    with set_Map_set [of k v m] have "q = (k, v) \<or> q \<in> set m" by auto
    with q Cons.prems show False by auto
  qed
  with Cons show ?case by auto
qed

lemma map_Map_set_same:
  "map_of m k = Some u \<Longrightarrow> g (k, v) = g (k, u) \<Longrightarrow> map g (Map_set k v m) = map g m"
  by (induction m) (auto split: if_splits)

lemma sweep_fold:
  "fold (\<lambda>entry acc. if Q entry then Map_delete (fst entry) acc else acc) xs acc =
   filter (\<lambda>p. fst p \<notin> fst ` {e \<in> set xs. Q e}) acc"
proof (induction xs arbitrary: acc)
  case Nil
  then show ?case by simp
next
  case (Cons x xs)
  show ?case
    by (auto simp: Cons.IH Map_delete_filter intro!: filter_cong)
qed

lemma sweep_filter:
  assumes "distinct (map fst m)"
  shows "sweep now m = filter (\<lambda>p. \<not> now - lastSeen (snd p) > timeout) m"
proof -
  have "(fst p \<notin> fst ` {e \<in> set m. now - lastSeen (snd e) > timeout}) = (\<not> now - lastSeen (snd p) > timeout)"
    if p: "p \<in> set m" for p
  proof
    assume "fst p \<notin> fst ` {e \<in> set m. now - lastSeen (snd e) > timeout}"
    with p show "\<not> now - lastSeen (snd p) > timeout" by blast
  next
    assume fresh: "\<not> now - lastSeen (snd p) > timeout"
    show "fst p \<notin> fst ` {e \<in> set m. now - lastSeen (snd e) > timeout}"
    proof
      assume "fst p \<in> fst ` {e \<in> set m. now - lastSeen (snd e) > timeout}"
      then obtain e where e: "e \<in> set m" "now - lastSeen (snd e) > timeout" "fst e = fst p"
        by force
      have "(fst e, snd e) \<in> set m" "(fst p, snd p) \<in> set m"
        using e(1) p by simp_all
      then have "(fst p, snd e) \<in> set m" "(fst p, snd p) \<in> set m"
        by (simp_all only: e(3))
      from eq_key_imp_eq_value [OF assms this] have "snd e = snd p" .
      with e(2) fresh show False by simp
    qed
  qed
  then show ?thesis
    unfolding sweep_def sweep_fold by (intro filter_cong) auto
qed

section \<open>Every operation keeps the invariant\<close>

lemma map_list_update_same:
  "i < length xs \<Longrightarrow> g y = g (xs ! i) \<Longrightarrow> map g (xs[i := y]) = map g xs"
  by (simp add: map_update list_update_same_conv)

lemma list_all_list_update:
  "list_all P xs \<Longrightarrow> P y \<Longrightarrow> list_all P (xs[i := y])"
  using set_update_subset_insert [of xs i y] by (auto simp: list_all_iff)

lemma getRandomColor_palette:
  assumes "0 \<le> r" "r < 1"
  shows "getRandomColor r \<in> set colors"
proof -
  have len: "length colors = 8" by (simp add: colors_def)
  have "0 \<le> \<lfloor>r * 8\<rfloor>" using assms by simp
  moreover have "\<lfloor>r * 8\<rfloor> < 8" using assms by (simp add: floor_less_iff)
  ultimately have "nat \<lfloor>r * 8\<rfloor> < length colors" unfolding len by linarith
  then have "colors ! nat \<lfloor>r * 8\<rfloor> \<in> set colors" by (rule nth_mem)
  then show ?thesis by (simp add: getRandomColor_def len)
qed

lemma addUser_existing:
  assumes "findIndex (\<lambda>u. username u = name) (map snd (users s)) = Some i"
  shows "addUser s name e =
    ((snd (users s ! i))\<lparr>lastSeen := date_now e\<rparr>,
     s\<lparr>users := (users s)[i := (fst (users s ! i), (snd (users s ! i))\<lparr>lastSeen := date_now e\<rparr>)]\<rparr>)"
  using assms by (simp add: addUser_def Let_def)

lemma addUser_new:
  assumes "findIndex (\<lambda>u. username u = name) (map snd (users s)) = None"
  shows "addUser s name e =
    (\<lparr>uid = gen_id e, username = name, color = getRandomColor (math_random e), lastSeen = date_now e\<rparr>,
     s\<lparr>users := Map_set (gen_id e)
        \<lparr>uid = gen_id e, username = name, color = getRandomColor (math_random e), lastSeen = date_now e\<rparr>
        (users s)\<rparr>)"
  using assms by (simp add: addUser_def Let_def)

lemma addUser_messages: "messages (snd (addUser s name e)) = messages s"
  by (simp add: addUser_def Let_def split: option.splits)

lemma wf_store_addUser:
  assumes inv: "wf_store s"
  shows "wf_store (snd (addUser s name e))"
proof (cases "findIndex (\<lambda>u. username u = name) (map snd (users s))")
  case None
  let ?u = "\<lparr>uid = gen_id e, username = name, color = getRandomColor (math_random e), lastSeen = date_now e\<rparr>"
  have absent: "\<forall>p\<in>set (users s). username (snd p) \<noteq> name"
    using None by (auto simp: findIndex_None)
  have "distinct (map fst (Map_set (gen_id e) ?u (users s)))"
    using inv by (simp add: wf_store_def distinct_keys_def distinct_Map_set)
  moreover have "list_all (\<lambda>entry. uid (snd entry) = fst entry) (Map_set (gen_id e) ?u (users s))"
    using inv by (simp add: wf_store_def keyed_by_id_def list_all_Map_set)
  moreover have "distinct (map (\<lambda>entry. username (snd entry)) (Map_set (gen_id e) ?u (users s)))"
    using inv absent by (intro distinct_map_Map_set) (auto simp: wf_store_def distinct_names_def)
  ultimately show ?thesis
    using inv by (simp add: addUser_new [OF None] wf_store_def distinct_keys_def keyed_by_id_def
        distinct_names_def log_bounded_def)
next
  case (Some i)
  let ?xs = "users s"
  let ?y = "(fst (?xs ! i), (snd (?xs ! i))\<lparr>lastSeen := date_now e\<rparr>)"
  from findIndex_Some [OF Some] have i: "i < length ?xs" by simp
  then have mem: "?xs ! i \<in> set ?xs" by simp
  have "map fst (?xs[i := ?y]) = map fst ?xs"
    using i by (simp add: map_list_update_same)
  moreover have "map (\<lambda>entry. username (snd entry)) (?xs[i := ?y]) = map (\<lambda>entry. username (snd entry)) ?xs"
    using i by (simp add: map_list_update_same)
  moreover have "list_all (\<lambda>entry. uid (snd entry) = fst entry) (?xs[i := ?y])"
    using inv mem by (intro list_all_list_update) (auto simp: wf_store_def keyed_by_id_def list_all_iff)
  ultimately show ?thesis
    using inv by (simp add: addUser_existing [OF Some] wf_store_def distinct_keys_def keyed_by_id_def
        distinct_names_def log_bounded_def)
qed

lemma palette_addUser:
  assumes inv: "palette_colors s" and ok: "random_ok e"
  shows "palette_colors (snd (addUser s name e))"
proof (cases "findIndex (\<lambda>u. username u = name) (map snd (users s))")
  case None
  then show ?thesis
    using inv ok by (simp add: addUser_new [OF None] palette_colors_def list_all_Map_set
        getRandomColor_palette random_ok_def)
next
  case (Some i)
  from findIndex_Some [OF Some] have "users s ! i \<in> set (users s)" by simp
  with inv have "color (snd (users s ! i)) \<in> set colors"
    by (auto simp: palette_colors_def list_all_iff)
  with inv show ?thesis
    by (simp add: addUser_existing [OF Some] palette_colors_def list_all_list_update)
qed

lemma sweep_is_filter: "\<exists>Q. sweep now m = filter Q m"
  unfolding sweep_def sweep_fold by blast

lemma wf_store_removeUser: "wf_store s \<Longrightarrow> wf_store (removeUser s k)"
  by (auto simp: removeUser_def wf_store_def distinct_keys_def keyed_by_id_def distinct_names_def
      log_bounded_def Map_delete_filter distinct_map_filter list_all_iff)

lemma palette_removeUser: "palette_colors s \<Longrightarrow> palette_colors (removeUser s k)"
  by (auto simp: removeUser_def palette_colors_def Map_delete_filter list_all_iff)

lemma wf_store_getOnlineUsers: "wf_store s \<Longrightarrow> wf_store (snd (getOnlineUsers s now))"
proof -
  assume inv: "wf_store s"
  obtain Q where Q: "sweep now (users s) = filter Q (users s)"
    using sweep_is_filter by blast
  show ?thesis
    using inv by (auto simp: getOnlineUsers_def Let_def Q wf_store_def distinct_keys_def keyed_by_id_def
        distinct_names_def log_bounded_def distinct_map_filter list_all_iff)
qed

lemma palette_getOnlineUsers: "palette_colors s \<Longrightarrow> palette_colors (snd (getOnlineUsers s now))"
proof -
  assume inv: "palette_colors s"
  obtain Q where Q: "sweep now (users s) = filter Q (users s)"
    using sweep_is_filter by blast
  show ?thesis
    using inv by (auto simp: getOnlineUsers_def Let_def Q palette_colors_def list_all_iff)
qed

lemma wf_store_updateUserSeen:
  assumes inv: "wf_store s"
  shows "wf_store (updateUserSeen s k now)"
proof (cases "map_of (users s) k")
  case None
  then show ?thesis using inv by (simp add: updateUserSeen_def Map_get_def)
next
  case (Some user)
  let ?v = "user\<lparr>lastSeen := now\<rparr>"
  have mem: "(k, user) \<in> set (users s)" using Some by (rule map_of_SomeD)
  have "map fst (Map_set k ?v (users s)) = map fst (users s)"
    using Some by (intro map_Map_set_same) auto
  moreover have "map (\<lambda>entry. username (snd entry)) (Map_set k ?v (users s))
        = map (\<lambda>entry. username (snd entry)) (users s)"
    using Some by (intro map_Map_set_same) auto
  moreover have "list_all (\<lambda>entry. uid (snd entry) = fst entry) (Map_set k ?v (users s))"
    using inv mem by (intro list_all_Map_set) (auto simp: wf_store_def keyed_by_id_def list_all_iff)
  ultimately show ?thesis
    using inv Some by (simp add: updateUserSeen_def Map_get_def wf_store_def distinct_keys_def
        keyed_by_id_def distinct_names_def log_bounded_def)
qed

lemma palette_updateUserSeen:
  assumes inv: "palette_colors s"
  shows "palette_colors (updateUserSeen s k now)"
proof (cases "map_of (users s) k")
  case None
  then show ?thesis using inv by (simp add: updateUserSeen_def Map_get_def)
next
  case (Some user)
  have "(k, user) \<in> set (users s)" using Some by (rule map_of_SomeD)
  with inv have "color user \<in> set colors"
    by (auto simp: palette_colors_def list_all_iff)
  with inv Some show ?thesis
    by (simp add: updateUserSeen_def Map_get_def palette_colors_def list_all_Map_set)
qed

lemma wf_store_addMessage: "wf_store s \<Longrightarrow> wf_store (snd (addMessage s name body col ty e))"
  by (auto simp: addMessage_def Let_def wf_store_def distinct_keys_def keyed_by_id_def distinct_names_def
      log_bounded_def)

lemma palette_addMessage: "palette_colors s \<Longrightarrow> palette_colors (snd (addMessage s name body col ty e))"
  by (simp add: addMessage_def Let_def palette_colors_def)

lemma getStats_state: "snd (getStats s now) = snd (getOnlineUsers s now)"
  by (simp add: getStats_def Let_def split: prod.splits)

lemma wf_store_step: "wf_store s \<Longrightarrow> wf_store (step s c)"
  by (cases c)
    (simp_all add: wf_store_addUser wf_store_removeUser wf_store_getOnlineUsers
      wf_store_updateUserSeen wf_store_addMessage addSystemMessage_def getStats_state)

lemma palette_step: "palette_colors s \<Longrightarrow> op_ok c \<Longrightarrow> palette_colors (step s c)"
  by (cases c)
    (simp_all add: palette_addUser palette_removeUser palette_getOnlineUsers
      palette_updateUserSeen palette_addMessage addSystemMessage_def getStats_state)

lemma wf_store_init: "wf_store (getStore None)"
  by (simp add: getStore_def wf_store_def distinct_keys_def keyed_by_id_def distinct_names_def
      log_bounded_def)

lemma wf_store_run: "wf_store s \<Longrightarrow> wf_store (run s cs)"
  by (induction cs arbitrary: s) (simp_all add: wf_store_step)

lemma palette_run: "palette_colors s \<Longrightarrow> list_all op_ok cs \<Longrightarrow> palette_colors (run s cs)"
  by (induction cs arbitrary: s) (simp_all add: palette_step)

lemma wf_store_reachable: "wf_store (run (getStore None) cs)"
  by (rule wf_store_run [OF wf_store_init])

lemma palette_reachable: "list_all op_ok cs \<Longrightarrow> palette_colors (run (getStore None) cs)"
  by (rule palette_run) (simp add: getStore_def palette_colors_def)

lemma Map_delete_absent: "map_of m k = None \<Longrightarrow> Map_delete k m = m"
  by (induction m) (auto split: if_splits)

section \<open>The claims of the specification\<close>

text \<open>
  Claim C7. \<open>removeUser(userId)\<close> deletes the record stored under that id when there
  is one and leaves the store as it is when there is none; it returns no error (the
  operation is total). After a first call the id is absent, so a second call changes
  nothing. No call touches the message log or the record under any other key.
\<close>

theorem removeUser_twice:
  "getUser (removeUser s k) k = None
   \<and> users (removeUser s k) = filter (\<lambda>entry. fst entry \<noteq> k) (users s)
   \<and> (\<forall>k'. k' \<noteq> k \<longrightarrow> getUser (removeUser s k) k' = getUser s k')
   \<and> messages (removeUser s k) = messages s
   \<and> (getUser s k = None \<longrightarrow> removeUser s k = s)
   \<and> removeUser (removeUser s k) k = removeUser s k"
proof -
  have gone: "getUser (removeUser s k) k = None"
    by (simp add: getUser_def removeUser_def Map_get_def map_of_Map_delete)
  have absent: "removeUser t k = t" if "getUser t k = None" for t
    using that by (simp add: getUser_def removeUser_def Map_get_def Map_delete_absent)
  have "removeUser (removeUser s k) k = removeUser s k"
    using gone by (rule absent)
  moreover have "users (removeUser s k) = filter (\<lambda>entry. fst entry \<noteq> k) (users s)"
    by (simp add: removeUser_def Map_delete_filter)
  moreover have "\<forall>k'. k' \<noteq> k \<longrightarrow> getUser (removeUser s k) k' = getUser s k'"
    by (simp add: getUser_def removeUser_def Map_get_def map_of_Map_delete)
  moreover have "messages (removeUser s k) = messages s"
    by (simp add: removeUser_def)
  ultimately show ?thesis using gone absent by blast
qed

theorem removeUser_twice_witness:
  "getUser two_users ''k3x9q'' = Some alice
   \<and> getUser (removeUser two_users ''k3x9q'') ''k3x9q'' = None
   \<and> getUser (removeUser two_users ''k3x9q'') ''p07ab'' = Some bob
   \<and> removeUser (removeUser two_users ''k3x9q'') ''k3x9q'' = removeUser two_users ''k3x9q''
   \<and> getUser two_users ''zzzzz'' = None
   \<and> removeUser two_users ''zzzzz'' = two_users"
proof -
  have present: "getUser two_users ''k3x9q'' = Some alice"
    and other: "getUser two_users ''p07ab'' = Some bob"
    and absent: "getUser two_users ''zzzzz'' = None"
    by (simp_all add: getUser_def Map_get_def two_users_def)
  show ?thesis
    using removeUser_twice [of two_users "''k3x9q''"] removeUser_twice [of two_users "''zzzzz''"]
      present other absent
    by simp
qed

lemma keep_last_append:
  "drop (length (drop (length xs - n) xs @ ys) - n) (drop (length xs - n) xs @ ys)
   = drop (length (xs @ ys) - n) (xs @ ys)"
proof -
  have "drop (length xs - n) xs @ ys = drop (length xs - n) (xs @ ys)"
    by simp
  moreover have "length (drop (length xs - n) xs @ ys) - n + (length xs - n) = length (xs @ ys) - n"
    unfolding length_append length_drop by arith
  ultimately show ?thesis
    by (metis drop_drop)
qed

lemma addMessage_log:
  assumes "length (messages s) \<le> 100"
  shows "messages (snd (addMessage s name text col ty e))
         = drop (length (messages s @ [fst (addMessage s name text col ty e)]) - 100)
             (messages s @ [fst (addMessage s name text col ty e)])"
proof (cases "length (messages s) = 100")
  case True
  then have "messages s \<noteq> []" by auto
  with True show ?thesis by (simp add: addMessage_def Let_def drop_Suc)
next
  case False
  with assms show ?thesis by (simp add: addMessage_def Let_def)
qed

lemma addMessage_log_length:
  "length (messages s) \<le> 100 \<Longrightarrow> length (messages (snd (addMessage s name text col ty e))) \<le> 100"
  by (simp add: addMessage_def Let_def)

lemma addMessage_users: "users (snd (addMessage s name text col ty e)) = users s"
  by (simp add: addMessage_def Let_def)

lemma addMessage_returned:
  "fst (addMessage s name text col ty e) = fst (addMessage t name text col ty e)"
  by (simp add: addMessage_def Let_def)

lemma addMessages_log:
  assumes "length (messages s) \<le> 100"
  shows "messages (snd (addMessages s calls))
           = drop (length (messages s @ fst (addMessages s calls)) - 100)
               (messages s @ fst (addMessages s calls))
         \<and> length (messages (snd (addMessages s calls))) \<le> 100
         \<and> users (snd (addMessages s calls)) = users s
         \<and> fst (addMessages s calls)
             = map (\<lambda>(name, text, col, ty, e). fst (addMessage s name text col ty e)) calls"
  using assms
proof (induction calls arbitrary: s)
  case Nil
  then show ?case by simp
next
  case (Cons c cs)
  obtain name body col ty e where c: "c = (name, body, col, ty, e)"
    by (cases c) auto
  define m where "m = fst (addMessage s name body col ty e)"
  define s1 where "s1 = snd (addMessage s name body col ty e)"
  have step: "addMessage s name body col ty e = (m, s1)"
    by (simp add: m_def s1_def)
  have log1: "messages s1 = drop (length (messages s @ [m]) - 100) (messages s @ [m])"
    unfolding m_def s1_def using Cons.prems by (rule addMessage_log)
  have len1: "length (messages s1) \<le> 100"
    unfolding s1_def using Cons.prems by (rule addMessage_log_length)
  note IH = Cons.IH [OF len1]
  define ms where "ms = fst (addMessages s1 cs)"
  have all: "addMessages s (c # cs) = (m # ms, snd (addMessages s1 cs))"
    by (simp add: c step ms_def split: prod.splits)
  have "messages (snd (addMessages s1 cs))
          = drop (length (messages s1 @ ms) - 100) (messages s1 @ ms)"
    using IH by (simp add: ms_def)
  also have "\<dots> = drop (length ((messages s @ [m]) @ ms) - 100) ((messages s @ [m]) @ ms)"
    unfolding log1 by (rule keep_last_append)
  finally have "messages (snd (addMessages s1 cs))
      = drop (length (messages s @ (m # ms)) - 100) (messages s @ (m # ms))"
    by simp
  then have log: "messages (snd (addMessages s (c # cs)))
      = drop (length (messages s @ fst (addMessages s (c # cs))) - 100)
          (messages s @ fst (addMessages s (c # cs)))"
    by (simp only: all fst_conv snd_conv)
  have same: "(\<lambda>(name, body, col, ty, e). fst (addMessage s1 name body col ty e))
      = (\<lambda>(name, body, col, ty, e). fst (addMessage s name body col ty e))"
    by (auto simp: fun_eq_iff addMessage_returned [of s1 _ _ _ _ _ s])
  have "ms = map (\<lambda>(name, body, col, ty, e). fst (addMessage s name body col ty e)) cs"
    using IH by (simp add: ms_def same)
  then have "m # ms = map (\<lambda>(name, body, col, ty, e). fst (addMessage s name body col ty e)) (c # cs)"
    by (simp add: c m_def)
  then have ret: "fst (addMessages s (c # cs))
      = map (\<lambda>(name, body, col, ty, e). fst (addMessage s name body col ty e)) (c # cs)"
    by (simp only: all fst_conv)
  have "users (snd (addMessages s1 cs)) = users s"
    using IH by (simp add: s1_def addMessage_users)
  then have us: "users (snd (addMessages s (c # cs))) = users s"
    by (simp only: all snd_conv)
  have "length (messages (snd (addMessages s1 cs))) \<le> 100"
    using IH by simp
  then have "length (messages (snd (addMessages s (c # cs)))) \<le> 100"
    by (simp only: all snd_conv)
  with log ret us show ?case by blast
qed

lemma log_bounded_reachable: "log_bounded (run (getStore None) cs)"
  using wf_store_reachable [of cs] by (simp add: wf_store_def)

text \<open>
  Claim C1. From a store whose log is within the bound (every store reached from the empty one
  is, \<open>log_bounded_reachable\<close>), a
  sequence of \<open>addMessage\<close> calls returns its messages \<open>ms\<close> in call order, and
  \<open>getMessages()\<close> is then the last 100 entries of the old log followed by \<open>ms\<close>: the
  retained messages in insertion order, never more than 100. A single call appends its
  message and, when the log already held 100 entries, drops exactly the first (oldest)
  one, the others unchanged and in order. The service's \<open>addMessage\<close> does the same to
  its array.
\<close>

theorem addMessage_fifo:
  assumes "log_bounded s"
    and "addMessages s calls = (ms, s')"
    and "addMessage s name text col ty e = (m, s1)"
  shows "ms = map (\<lambda>(name, text, col, ty, e). fst (addMessage s name text col ty e)) calls
     \<and> getMessages s' = drop (length (messages s @ ms) - 100) (messages s @ ms)
     \<and> length (getMessages s') \<le> 100
     \<and> getMessages s1 = (if length (messages s) = 100 then tl (messages s) else messages s) @ [m]
     \<and> getMessages s1 = service_addMessage (messages s) m
     \<and> length (getMessages s1) \<le> 100"
proof -
  from assms(1) have len: "length (messages s) \<le> 100"
    by (simp add: log_bounded_def)
  from addMessages_log [OF len, of calls] assms(2)
  have seq: "ms = map (\<lambda>(name, text, col, ty, e). fst (addMessage s name text col ty e)) calls"
    "getMessages s' = drop (length (messages s @ ms) - 100) (messages s @ ms)"
    "length (getMessages s') \<le> 100"
    by (simp_all add: getMessages_def)
  from assms(3) have m: "m = fst (addMessage s name text col ty e)"
    and s1: "s1 = snd (addMessage s name text col ty e)"
    by simp_all
  have one: "getMessages s1 = (if length (messages s) = 100 then tl (messages s) else messages s) @ [m]"
  proof (cases "messages s")
    case Nil
    then show ?thesis by (simp add: m s1 getMessages_def addMessage_def Let_def)
  next
    case (Cons x xs)
    with len show ?thesis by (simp add: m s1 getMessages_def addMessage_def Let_def)
  qed
  have svc: "getMessages s1 = service_addMessage (messages s) m"
    by (simp add: m s1 getMessages_def addMessage_def service_addMessage_def MAX_MESSAGES_def Let_def)
  have "length (getMessages s1) \<le> 100"
    using len by (simp add: s1 getMessages_def addMessage_log_length)
  with seq one svc show ?thesis by blast
qed

theorem addMessage_fifo_witness:
  "log_bounded full_store
   \<and> length (getMessages full_store) = 100
   \<and> getMessages (snd (addMessage full_store ''Bob'' ''yo'' ''#3498db'' None env1))
       = map numbered [1..<100] @ [fst (addMessage full_store ''Bob'' ''yo'' ''#3498db'' None env1)]
   \<and> map content (getMessages (snd (addMessages (getStore None)
         [(''Alice'', ''one'', ''#e74c3c'', None, env1), (''Bob'', ''two'', ''#3498db'', None, env2)])))
       = [''one'', ''two'']"
proof -
  have b: "log_bounded full_store"
    by (simp add: log_bounded_def full_store_def)
  have b0: "log_bounded (getStore None)"
    by (simp add: log_bounded_def getStore_def)
  have len: "length (messages full_store) = 100"
    by (simp add: full_store_def)
  have tl: "tl (messages full_store) = map numbered [1..<100]"
    by (simp add: full_store_def upt_conv_Cons [of 0 100] del: upt_Suc)
  from addMessage_fifo [OF b surjective_pairing surjective_pairing,
      of "[]" "''Bob''" "''yo''" "''#3498db''" None env1]
  have one: "getMessages (snd (addMessage full_store ''Bob'' ''yo'' ''#3498db'' None env1))
       = map numbered [1..<100] @ [fst (addMessage full_store ''Bob'' ''yo'' ''#3498db'' None env1)]"
    by (simp add: len tl)
  from addMessage_fifo [OF b0 surjective_pairing surjective_pairing,
      of "[(''Alice'', ''one'', ''#e74c3c'', None, env1), (''Bob'', ''two'', ''#3498db'', None, env2)]"
         "''Bob''" "''yo''" "''#3498db''" None env1]
  have two: "map content (getMessages (snd (addMessages (getStore None)
         [(''Alice'', ''one'', ''#e74c3c'', None, env1), (''Bob'', ''two'', ''#3498db'', None, env2)])))
       = [''one'', ''two'']"
    by (simp add: getStore_def addMessage_def Let_def getMessages_def)
  show ?thesis using b len one two by (simp add: getMessages_def)
qed

lemma run_join_ops: "run (getStore None) join_ops = two_users"
  by (simp add: join_ops_def getStore_def addUser_def Let_def two_users_def alice_def bob_def
      getRandomColor_def colors_def)

text \<open>
  Claim C9. \<open>addSystemMessage(content)\<close> is \<open>addMessage("System", content, "#666666",
  "system")\<close>: the message it returns has the author \<open>System\<close>, the type \<open>system\<close> and
  the neutral color, and the store changes as \<open>addMessage\<close> changes it (append, then
  drop the oldest entry when the length exceeds 100). The service builds the same message
  with \<open>createSystemMessage\<close> and appends it the same way.
\<close>

theorem addSystemMessage_wrapper:
  "addSystemMessage s body e = addMessage s ''System'' body ''#666666'' (Some SystemMsg) e
   \<and> fst (addSystemMessage s body e)
       = \<lparr>mid = gen_id e, musername = ''System'', content = body, timestamp = date_now e,
          mtype = SystemMsg, mcolor = ''#666666''\<rparr>
   \<and> fst (addSystemMessage s body e) = createSystemMessage body e
   \<and> messages (snd (addSystemMessage s body e))
       = (let pushed = messages s @ [fst (addSystemMessage s body e)]
          in if length pushed > 100 then tl pushed else pushed)
   \<and> messages (snd (addSystemMessage s body e))
       = service_addMessage (messages s) (createSystemMessage body e)
   \<and> users (snd (addSystemMessage s body e)) = users s"
  by (simp add: addSystemMessage_def addMessage_def createSystemMessage_def service_addMessage_def
      MAX_MESSAGES_def Let_def)

theorem addSystemMessage_wrapper_witness:
  "fst (addSystemMessage chatting ''Bob left the chat'' env1)
     = \<lparr>mid = ''x1y2z3'', musername = ''System'', content = ''Bob left the chat'',
        timestamp = 50000, mtype = SystemMsg, mcolor = ''#666666''\<rparr>
   \<and> map content (messages (snd (addSystemMessage chatting ''Bob left the chat'' env1)))
     = [''Alice joined the chat'', ''hi'', ''hello'', ''Bob left the chat'']"
proof -
  from addSystemMessage_wrapper [of chatting "''Bob left the chat''" env1]
  have "fst (addSystemMessage chatting ''Bob left the chat'' env1)
     = \<lparr>mid = gen_id env1, musername = ''System'', content = ''Bob left the chat'',
        timestamp = date_now env1, mtype = SystemMsg, mcolor = ''#666666''\<rparr>"
    by (rule conjunct1 [OF conjunct2])
  moreover have "map content (messages (snd (addSystemMessage chatting ''Bob left the chat'' env1)))
     = [''Alice joined the chat'', ''hi'', ''hello'', ''Bob left the chat'']"
    by (simp add: addSystemMessage_def addMessage_def chatting_def m1_def m2_def m3_def Let_def)
  ultimately show ?thesis by (simp add: env1_def)
qed

lemma count_filter: "length (filter (\<lambda>x. f x = a) xs) = count_list (map f xs) a"
  by (induction xs) auto

text \<open>
  Claim C5. \<open>getStats()\<close> returns \<open>totalMessages\<close> equal to the length of
  \<open>getMessages()\<close>, \<open>userMessages\<close> equal to the number of log entries of type
  \<open>user\<close>, and \<open>onlineUsers\<close> equal to the length of the list that the sweeping
  \<open>getOnlineUsers()\<close> returns at the same time; the store after the call is the one that
  sweep leaves, with the log untouched. In a map with distinct keys that count is the
  number of users seen within the last 30 seconds.
\<close>

theorem getStats_counts:
  assumes "getStats s now = (st, s')"
  shows "totalMessages st = length (getMessages s)
     \<and> userMessages st = count_list (map mtype (getMessages s)) UserMsg
     \<and> onlineUsers st = length (fst (getOnlineUsers s now))
     \<and> s' = snd (getOnlineUsers s now)
     \<and> getMessages s' = getMessages s
     \<and> (distinct_keys s \<longrightarrow>
          onlineUsers st = length (filter (\<lambda>entry. now - lastSeen (snd entry) \<le> 30000) (users s)))"
proof -
  have msgs: "messages (snd (getOnlineUsers s now)) = messages s"
    by (simp add: getOnlineUsers_def Let_def)
  have st: "st = \<lparr>onlineUsers = length (fst (getOnlineUsers s now)),
                  totalMessages = length (messages s),
                  userMessages = length (filter (\<lambda>m. mtype m = UserMsg) (messages s))\<rparr>"
    and s': "s' = snd (getOnlineUsers s now)"
    using assms msgs by (auto simp: getStats_def Let_def split: prod.splits)
  have "onlineUsers st = length (filter (\<lambda>entry. now - lastSeen (snd entry) \<le> 30000) (users s))"
    if "distinct_keys s"
  proof -
    from that have "sweep now (users s) = filter (\<lambda>p. \<not> now - lastSeen (snd p) > timeout) (users s)"
      by (simp add: distinct_keys_def sweep_filter)
    then show ?thesis
      by (simp add: st getOnlineUsers_def Let_def timeout_def not_less)
  qed
  then show ?thesis
    by (simp add: st s' msgs getMessages_def count_filter)
qed

theorem getStats_counts_witness:
  "fst (getStats chatting 45000) = \<lparr>onlineUsers = 1, totalMessages = 3, userMessages = 2\<rparr>
   \<and> length (getMessages chatting) = 3
   \<and> count_list (map mtype (getMessages chatting)) UserMsg = 2
   \<and> fst (getOnlineUsers chatting 45000) = [bob]
   \<and> distinct_keys chatting"
proof -
  have online: "fst (getOnlineUsers chatting 45000) = [bob]"
    by (simp add: getOnlineUsers_def sweep_def timeout_def chatting_def alice_def bob_def Let_def)
  have d: "distinct_keys chatting"
    by (simp add: distinct_keys_def chatting_def)
  have msgs: "getMessages chatting = [m1, m2, m3]"
    by (simp add: getMessages_def chatting_def)
  have types: "map mtype [m1, m2, m3] = [SystemMsg, UserMsg, UserMsg]"
    by (simp add: m1_def m2_def m3_def)
  from getStats_counts [OF surjective_pairing, of chatting 45000] online msgs types
  have "fst (getStats chatting 45000) = \<lparr>onlineUsers = 1, totalMessages = 3, userMessages = 2\<rparr>"
    by simp
  with online d msgs types show ?thesis by simp
qed

lemma map_of_filter_distinct:
  assumes d: "distinct (map fst xs)" and mem: "(k, u) \<in> set xs"
  shows "map_of (filter P xs) k = (if P (k, u) then Some u else None)"
proof (cases "P (k, u)")
  case True
  have "distinct (map fst (filter P xs))" using d by (rule distinct_map_filter)
  moreover have "(k, u) \<in> set (filter P xs)" using mem True by simp
  ultimately have "map_of (filter P xs) k = Some u" by (rule map_of_is_SomeI)
  with True show ?thesis by simp
next
  case False
  have "map_of (filter P xs) k = None"
  proof (cases "map_of (filter P xs) k")
    case None
    then show ?thesis .
  next
    case (Some v)
    then have v: "(k, v) \<in> set xs" "P (k, v)"
      using map_of_SomeD [OF Some] by simp_all
    from eq_key_imp_eq_value [OF d v(1) mem] v(2) False show ?thesis by simp
  qed
  with False show ?thesis by simp
qed

lemma keyed_mem: "keyed_by_id s \<Longrightarrow> (k, u) \<in> set (users s) \<Longrightarrow> uid u = k"
  by (auto simp: keyed_by_id_def list_all_iff)

lemma keys_step: "\<not> is_addUser c \<Longrightarrow> fst ` set (users (step s c)) \<subseteq> fst ` set (users s)"
proof (cases c)
  case (UpdateUserSeen k now)
  have "map fst (Map_set k v (users s)) = map fst (users s)" if "map_of (users s) k = Some u" for u v
    using that by (intro map_Map_set_same) auto
  then have "map fst (users (updateUserSeen s k now)) = map fst (users s)"
    by (simp add: updateUserSeen_def Map_get_def split: option.splits)
  then have "set (map fst (users (updateUserSeen s k now))) = set (map fst (users s))"
    by simp
  with UpdateUserSeen show ?thesis by (simp only: set_map step.simps)
next
  case (GetOnlineUsers now)
  obtain Q where "sweep now (users s) = filter Q (users s)"
    using sweep_is_filter by blast
  with GetOnlineUsers show ?thesis by (auto simp: getOnlineUsers_def Let_def)
next
  case (GetStats now)
  obtain Q where "sweep now (users s) = filter Q (users s)"
    using sweep_is_filter by blast
  with GetStats show ?thesis by (auto simp: getStats_state getOnlineUsers_def Let_def)
qed (auto simp: removeUser_def Map_delete_filter addMessage_def addSystemMessage_def Let_def)

lemma absent_run:
  "list_all (\<lambda>c. \<not> is_addUser c) cs \<Longrightarrow> getUser s k = None \<Longrightarrow> getUser (run s cs) k = None"
proof (induction cs arbitrary: s)
  case Nil
  then show ?case by simp
next
  case (Cons c cs)
  from Cons.prems have "\<not> is_addUser c" by simp
  from keys_step [OF this, of s] Cons.prems(2) have "getUser (step s c) k = None"
    by (auto simp: getUser_def Map_get_def map_of_eq_None_iff)
  with Cons show ?case by simp
qed

text \<open>
  Claim C3. In every store state (any state a sequence of operations reaches) and at
  every time \<open>now\<close>, \<open>getOnlineUsers()\<close> keeps exactly the entries whose \<open>lastSeen\<close>
  is at most 30000 ms before \<open>now\<close>, in their order and unmodified, and returns their
  users; the log is untouched. A user seen more than 30000 ms ago is not returned and is
  gone from the map: \<open>getUser\<close> of its id is absent right after the call and stays absent
  under every later operation other than \<open>addUser\<close>. A user within the window is
  returned and \<open>getUser\<close> of its id still gives the same record.
\<close>

theorem getOnlineUsers_sweep:
  assumes "s = run (getStore None) ops"
    and "getOnlineUsers s now = (online, s')"
  shows "users s' = filter (\<lambda>entry. now - lastSeen (snd entry) \<le> 30000) (users s)
     \<and> online = map snd (users s')
     \<and> messages s' = messages s
     \<and> (\<forall>u \<in> set (map snd (users s)). now - lastSeen u > 30000 \<longrightarrow>
           u \<notin> set online \<and> getUser s' (uid u) = None
           \<and> (\<forall>later. list_all (\<lambda>c. \<not> is_addUser c) later \<longrightarrow> getUser (run s' later) (uid u) = None))
     \<and> (\<forall>u \<in> set (map snd (users s)). now - lastSeen u \<le> 30000 \<longrightarrow>
           u \<in> set online \<and> getUser s' (uid u) = Some u)"
proof -
  let ?fresh = "\<lambda>entry. now - lastSeen (snd entry) \<le> 30000"
  have wf: "wf_store s" unfolding assms(1) by (rule wf_store_reachable)
  then have d: "distinct (map fst (users s))" and keyed: "keyed_by_id s"
    by (simp_all add: wf_store_def distinct_keys_def)
  have sw: "sweep now (users s) = filter ?fresh (users s)"
    using sweep_filter [OF d, of now] by (simp add: timeout_def not_less)
  from assms(2) have s': "s' = s\<lparr>users := filter ?fresh (users s)\<rparr>"
    and online: "online = map snd (filter ?fresh (users s))"
    by (auto simp: getOnlineUsers_def Let_def sw)
  have look: "getUser s' (uid u) = (if ?fresh (uid u, u) then Some u else None)"
    if "u \<in> set (map snd (users s))" for u
  proof -
    from that obtain k where k: "(k, u) \<in> set (users s)" by auto
    with keyed have "uid u = k" by (rule keyed_mem)
    with k have "(uid u, u) \<in> set (users s)" by simp
    from map_of_filter_distinct [OF d this, of ?fresh] show ?thesis
      by (simp add: s' getUser_def Map_get_def)
  qed
  have stale: "u \<notin> set online \<and> getUser s' (uid u) = None
           \<and> (\<forall>later. list_all (\<lambda>c. \<not> is_addUser c) later \<longrightarrow> getUser (run s' later) (uid u) = None)"
    if "u \<in> set (map snd (users s))" "now - lastSeen u > 30000" for u
  proof -
    from look [OF that(1)] that(2) have none: "getUser s' (uid u) = None" by simp
    moreover have "u \<notin> set online" using that(2) by (auto simp: online)
    moreover have "\<forall>later. list_all (\<lambda>c. \<not> is_addUser c) later \<longrightarrow> getUser (run s' later) (uid u) = None"
      using none by (simp add: absent_run)
    ultimately show ?thesis by blast
  qed
  have fresh: "u \<in> set online \<and> getUser s' (uid u) = Some u"
    if "u \<in> set (map snd (users s))" "now - lastSeen u \<le> 30000" for u
  proof -
    from look [OF that(1)] that(2) have "getUser s' (uid u) = Some u" by simp
    moreover have "u \<in> set online" using that by (auto simp: online image_iff)
    ultimately show ?thesis by blast
  qed
  have "users s' = filter ?fresh (users s)" "online = map snd (users s')" "messages s' = messages s"
    by (simp_all add: s' online)
  with stale fresh show ?thesis by blast
qed

theorem getOnlineUsers_sweep_witness:
  "getUser (run (getStore None) join_ops) ''k3x9q'' = Some alice
   \<and> 45000 - lastSeen alice > 30000
   \<and> 45000 - lastSeen bob \<le> 30000
   \<and> fst (getOnlineUsers (run (getStore None) join_ops) 45000) = [bob]
   \<and> getUser (snd (getOnlineUsers (run (getStore None) join_ops) 45000)) ''k3x9q'' = None
   \<and> getUser (run (snd (getOnlineUsers (run (getStore None) join_ops) 45000))
        [UpdateUserSeen ''k3x9q'' 46000, GetStats 47000]) ''k3x9q'' = None
   \<and> getUser (snd (getOnlineUsers (run (getStore None) join_ops) 45000)) ''p07ab'' = Some bob"
proof -
  note sweep = getOnlineUsers_sweep [OF refl surjective_pairing, of join_ops 45000]
  have us: "map snd (users (run (getStore None) join_ops)) = [alice, bob]"
    by (simp add: run_join_ops two_users_def)
  have ids: "uid alice = ''k3x9q''" "uid bob = ''p07ab''"
    by (simp_all add: alice_def bob_def)
  have times: "45000 - lastSeen alice > 30000" "45000 - lastSeen bob \<le> 30000"
    by (simp_all add: alice_def bob_def)
  have later: "list_all (\<lambda>c. \<not> is_addUser c) [UpdateUserSeen ''k3x9q'' 46000, GetStats 47000]"
    by simp
  from sweep have stale: "\<forall>u \<in> set (map snd (users (run (getStore None) join_ops))). 45000 - lastSeen u > 30000 \<longrightarrow>
           u \<notin> set (fst (getOnlineUsers (run (getStore None) join_ops) 45000))
           \<and> getUser (snd (getOnlineUsers (run (getStore None) join_ops) 45000)) (uid u) = None
           \<and> (\<forall>later. list_all (\<lambda>c. \<not> is_addUser c) later \<longrightarrow>
                getUser (run (snd (getOnlineUsers (run (getStore None) join_ops) 45000)) later) (uid u) = None)"
    by blast
  from sweep have fresh: "\<forall>u \<in> set (map snd (users (run (getStore None) join_ops))). 45000 - lastSeen u \<le> 30000 \<longrightarrow>
           u \<in> set (fst (getOnlineUsers (run (getStore None) join_ops) 45000))
           \<and> getUser (snd (getOnlineUsers (run (getStore None) join_ops) 45000)) (uid u) = Some u"
    by blast
  from stale us times(1) ids(1) later
  have a: "getUser (snd (getOnlineUsers (run (getStore None) join_ops) 45000)) ''k3x9q'' = None"
    "getUser (run (snd (getOnlineUsers (run (getStore None) join_ops) 45000))
        [UpdateUserSeen ''k3x9q'' 46000, GetStats 47000]) ''k3x9q'' = None"
    by (metis list.set_intros(1))+
  from fresh us times(2) ids(2)
  have b: "getUser (snd (getOnlineUsers (run (getStore None) join_ops) 45000)) ''p07ab'' = Some bob"
    by (metis list.set_intros(1,2))
  have c: "fst (getOnlineUsers (run (getStore None) join_ops) 45000) = [bob]"
    by (simp add: run_join_ops getOnlineUsers_def sweep_def timeout_def two_users_def alice_def bob_def Let_def)
  have d: "getUser (run (getStore None) join_ops) ''k3x9q'' = Some alice"
    by (simp add: run_join_ops getUser_def Map_get_def two_users_def)
  from a b c d times show ?thesis by blast
qed

lemma wf_lookup:
  assumes "wf_store t" and "u \<in> set (map snd (users t))"
  shows "getUser t (uid u) = Some u"
proof -
  from assms(1) have d: "distinct (map fst (users t))" and keyed: "keyed_by_id t"
    by (simp_all add: wf_store_def distinct_keys_def)
  from assms(2) obtain k where k: "(k, u) \<in> set (users t)" by auto
  with keyed have "uid u = k" by (rule keyed_mem)
  with k have "(uid u, u) \<in> set (users t)" by simp
  with d have "map_of (users t) (uid u) = Some u" by (rule map_of_is_SomeI)
  then show ?thesis by (simp add: getUser_def Map_get_def)
qed

lemma addUser_stored: "fst (addUser s name e) \<in> set (map snd (users (snd (addUser s name e))))"
proof (cases "findIndex (\<lambda>u. username u = name) (map snd (users s))")
  case None
  show ?thesis
    using Map_set_mem [of "gen_id e" _ "users s"]
    by (auto simp: addUser_new [OF None] image_iff intro!: bexI)
next
  case (Some i)
  from findIndex_Some [OF Some] have i: "i < length (users s)" by simp
  show ?thesis
    using set_update_memI [OF i] by (auto simp: addUser_existing [OF Some] image_iff intro!: bexI)
qed

text \<open>
  Claim C10. In every state that a sequence of store operations reaches from the empty
  store, each entry of the user map is stored under the id of its record, and every
  store operation keeps it so. Hence \<open>getUser\<close> of an id gives a record with that id;
  the user \<open>addUser\<close> returns is what \<open>getUser\<close> of its id gives right after the call;
  and so is every user \<open>getOnlineUsers\<close> returns.
\<close>

theorem users_keyed_by_id:
  assumes "s = run (getStore None) ops"
  shows "keyed_by_id s
     \<and> (\<forall>k u. getUser s k = Some u \<longrightarrow> uid u = k)
     \<and> (\<forall>c. keyed_by_id (step s c))
     \<and> (\<forall>name e. getUser (snd (addUser s name e)) (uid (fst (addUser s name e)))
                    = Some (fst (addUser s name e)))
     \<and> (\<forall>now. \<forall>u \<in> set (fst (getOnlineUsers s now)).
            getUser (snd (getOnlineUsers s now)) (uid u) = Some u)"
proof -
  have wf: "wf_store s" unfolding assms by (rule wf_store_reachable)
  then have keyed: "keyed_by_id s" by (simp add: wf_store_def)
  have "uid u = k" if "getUser s k = Some u" for k u
  proof -
    from that have "(k, u) \<in> set (users s)"
      by (simp add: getUser_def Map_get_def map_of_SomeD)
    with keyed show ?thesis by (rule keyed_mem)
  qed
  moreover have "keyed_by_id (step s c)" for c
    using wf_store_step [OF wf, of c] by (simp add: wf_store_def)
  moreover have "getUser (snd (addUser s name e)) (uid (fst (addUser s name e))) = Some (fst (addUser s name e))"
    for name e
    using wf_store_addUser [OF wf] addUser_stored by (rule wf_lookup)
  moreover have "getUser (snd (getOnlineUsers s now)) (uid u) = Some u"
    if "u \<in> set (fst (getOnlineUsers s now))" for now u
  proof -
    from that have "u \<in> set (map snd (users (snd (getOnlineUsers s now))))"
      by (simp add: getOnlineUsers_def Let_def)
    with wf_store_getOnlineUsers [OF wf] show ?thesis by (rule wf_lookup)
  qed
  ultimately show ?thesis using keyed by blast
qed

theorem users_keyed_by_id_witness:
  "users (run (getStore None) join_ops) = [(''k3x9q'', alice), (''p07ab'', bob)]
   \<and> uid alice = ''k3x9q'' \<and> uid bob = ''p07ab''
   \<and> keyed_by_id (run (getStore None) join_ops)
   \<and> fst (addUser (run (getStore None) join_ops) ''Bob'' env1) = bob\<lparr>lastSeen := 50000\<rparr>
   \<and> getUser (snd (addUser (run (getStore None) join_ops) ''Bob'' env1)) ''p07ab''
        = Some (bob\<lparr>lastSeen := 50000\<rparr>)
   \<and> fst (getOnlineUsers (run (getStore None) join_ops) 45000) = [bob]
   \<and> getUser (snd (getOnlineUsers (run (getStore None) join_ops) 45000)) ''p07ab'' = Some bob"
proof -
  note keyed = users_keyed_by_id [OF refl, of join_ops]
  have us: "users (run (getStore None) join_ops) = [(''k3x9q'', alice), (''p07ab'', bob)]"
    by (simp add: run_join_ops two_users_def)
  have ids: "uid alice = ''k3x9q''" "uid bob = ''p07ab''"
    by (simp_all add: alice_def bob_def)
  have ret: "fst (addUser (run (getStore None) join_ops) ''Bob'' env1) = bob\<lparr>lastSeen := 50000\<rparr>"
    by (simp add: run_join_ops two_users_def addUser_def alice_def bob_def env1_def Let_def)
  from keyed have "getUser (snd (addUser (run (getStore None) join_ops) ''Bob'' env1))
        (uid (fst (addUser (run (getStore None) join_ops) ''Bob'' env1)))
      = Some (fst (addUser (run (getStore None) join_ops) ''Bob'' env1))"
    by blast
  then have got: "getUser (snd (addUser (run (getStore None) join_ops) ''Bob'' env1)) ''p07ab''
        = Some (bob\<lparr>lastSeen := 50000\<rparr>)"
    by (simp add: ret ids)
  have online: "fst (getOnlineUsers (run (getStore None) join_ops) 45000) = [bob]"
    by (simp add: run_join_ops getOnlineUsers_def sweep_def timeout_def two_users_def alice_def bob_def Let_def)
  from keyed have "\<forall>u \<in> set (fst (getOnlineUsers (run (getStore None) join_ops) 45000)).
            getUser (snd (getOnlineUsers (run (getStore None) join_ops) 45000)) (uid u) = Some u"
    by blast
  then have swept: "getUser (snd (getOnlineUsers (run (getStore None) join_ops) 45000)) ''p07ab'' = Some bob"
    by (simp add: online ids)
  from keyed have "keyed_by_id (run (getStore None) join_ops)" by blast
  with us ids ret got online swept show ?thesis by blast
qed

lemma step_entries:
  assumes "entry \<in> set (users (step s c))"
  shows "new_user s c = Some (snd entry)
     \<or> (\<exists>old. (fst entry, old) \<in> set (users s) \<and> snd entry = old\<lparr>lastSeen := lastSeen (snd entry)\<rparr>)"
proof -
  have kept: ?thesis if "entry \<in> set (users s)"
  proof -
    from that have "(fst entry, snd entry) \<in> set (users s)" by simp
    moreover have "snd entry = (snd entry)\<lparr>lastSeen := lastSeen (snd entry)\<rparr>" by simp
    ultimately show ?thesis by blast
  qed
  have filtered: ?thesis if "users (step s c) = filter Q (users s)" for Q
    using assms that kept by simp
  show ?thesis
  proof (cases c)
    case (AddUser name e)
    show ?thesis
    proof (cases "findIndex (\<lambda>u. username u = name) (map snd (users s))")
      case None
      from assms have "entry \<in> set (Map_set (gen_id e) (fst (addUser s name e)) (users s))"
        by (simp add: AddUser addUser_new [OF None])
      with set_Map_set have "entry = (gen_id e, fst (addUser s name e)) \<or> entry \<in> set (users s)"
        by fastforce
      then show ?thesis
      proof
        assume "entry = (gen_id e, fst (addUser s name e))"
        then show ?thesis by (simp add: AddUser None)
      next
        assume "entry \<in> set (users s)"
        then show ?thesis by (rule kept)
      qed
    next
      case (Some i)
      let ?old = "snd (users s ! i)"
      from findIndex_Some [OF Some] have i: "i < length (users s)" by simp
      from assms have "entry \<in> set ((users s)[i := (fst (users s ! i), ?old\<lparr>lastSeen := date_now e\<rparr>)])"
        by (simp add: AddUser addUser_existing [OF Some])
      with set_update_subset_insert
      have "entry = (fst (users s ! i), ?old\<lparr>lastSeen := date_now e\<rparr>) \<or> entry \<in> set (users s)"
        by fastforce
      then show ?thesis
      proof
        assume e: "entry = (fst (users s ! i), ?old\<lparr>lastSeen := date_now e\<rparr>)"
        have "(fst entry, ?old) \<in> set (users s)"
          using i by (simp add: e)
        moreover have "snd entry = ?old\<lparr>lastSeen := lastSeen (snd entry)\<rparr>"
          by (simp add: e)
        ultimately show ?thesis by blast
      next
        assume "entry \<in> set (users s)"
        then show ?thesis by (rule kept)
      qed
    qed
  next
    case (RemoveUser k)
    show ?thesis by (rule filtered) (simp add: RemoveUser removeUser_def Map_delete_filter)
  next
    case (GetUser k)
    with assms kept show ?thesis by simp
  next
    case (GetOnlineUsers now)
    obtain Q where "sweep now (users s) = filter Q (users s)"
      using sweep_is_filter by blast
    then have "users (step s c) = filter Q (users s)"
      by (simp add: GetOnlineUsers getOnlineUsers_def Let_def)
    then show ?thesis by (rule filtered)
  next
    case (UpdateUserSeen k now)
    show ?thesis
    proof (cases "map_of (users s) k")
      case None
      with assms kept show ?thesis by (simp add: UpdateUserSeen updateUserSeen_def Map_get_def)
    next
      case (Some user)
      from assms have "entry \<in> set (Map_set k (user\<lparr>lastSeen := now\<rparr>) (users s))"
        by (simp add: UpdateUserSeen updateUserSeen_def Map_get_def Some)
      with set_Map_set have "entry = (k, user\<lparr>lastSeen := now\<rparr>) \<or> entry \<in> set (users s)"
        by fastforce
      then show ?thesis
      proof
        assume e: "entry = (k, user\<lparr>lastSeen := now\<rparr>)"
        have "(fst entry, user) \<in> set (users s)"
          using map_of_SomeD [OF Some] by (simp add: e)
        moreover have "snd entry = user\<lparr>lastSeen := lastSeen (snd entry)\<rparr>"
          by (simp add: e)
        ultimately show ?thesis by blast
      next
        assume "entry \<in> set (users s)"
        then show ?thesis by (rule kept)
      qed
    qed
  next
    case (AddMessage name body col ty e)
    with assms kept show ?thesis by (simp add: addMessage_users)
  next
    case (AddSystemMessage body e)
    with assms kept show ?thesis by (simp add: addSystemMessage_def addMessage_users)
  next
    case GetMessages
    with assms kept show ?thesis by simp
  next
    case (GetStats now)
    obtain Q where "sweep now (users s) = filter Q (users s)"
      using sweep_is_filter by blast
    then have "users (step s c) = filter Q (users s)"
      by (simp add: GetStats getStats_state getOnlineUsers_def Let_def)
    then show ?thesis by (rule filtered)
  qed
qed

lemma new_user_color:
  assumes "op_ok c" and "new_user s c = Some u"
  shows "color u \<in> set colors"
proof (cases c)
  case (AddUser name e)
  with assms(2) have none: "findIndex (\<lambda>u. username u = name) (map snd (users s)) = None"
    and u: "u = fst (addUser s name e)"
    by (auto split: option.splits)
  from assms(1) AddUser have "random_ok e" by simp
  then show ?thesis
    by (simp add: u addUser_new [OF none] getRandomColor_palette random_ok_def)
qed (use assms(2) in simp_all)

text \<open>
  Claim C8. The palette has eight entries. In every state reached from the empty store
  (the draws of \<open>Math.random()\<close> lying in \<open>[0, 1)\<close>) every user in the map has a color
  of the palette, and the color of a record that \<open>addUser\<close> creates is of the palette.
  No operation changes the color of a record: after any operation each entry of the map
  is either the record that operation has just created, or the record that was under the
  same key before, equal to it in every field but possibly \<open>lastSeen\<close>.
\<close>

theorem color_palette_immutable:
  assumes "list_all op_ok ops" and "s = run (getStore None) ops"
  shows "length colors = 8
     \<and> (\<forall>u \<in> set (map snd (users s)). color u \<in> set colors)
     \<and> (\<forall>c u. op_ok c \<longrightarrow> new_user s c = Some u \<longrightarrow> color u \<in> set colors)
     \<and> (\<forall>c. \<forall>entry \<in> set (users (step s c)).
            new_user s c = Some (snd entry)
            \<or> (\<exists>old. (fst entry, old) \<in> set (users s)
                  \<and> snd entry = old\<lparr>lastSeen := lastSeen (snd entry)\<rparr>
                  \<and> color (snd entry) = color old))"
proof -
  have "palette_colors s" unfolding assms(2) using assms(1) by (rule palette_reachable)
  then have "\<forall>u \<in> set (map snd (users s)). color u \<in> set colors"
    by (auto simp: palette_colors_def list_all_iff)
  moreover have "length colors = 8" by (simp add: colors_def)
  moreover have "\<forall>c u. op_ok c \<longrightarrow> new_user s c = Some u \<longrightarrow> color u \<in> set colors"
    using new_user_color by blast
  moreover have "new_user s c = Some (snd entry)
            \<or> (\<exists>old. (fst entry, old) \<in> set (users s)
                  \<and> snd entry = old\<lparr>lastSeen := lastSeen (snd entry)\<rparr>
                  \<and> color (snd entry) = color old)"
    if "entry \<in> set (users (step s c))" for c entry
  proof -
    from step_entries [OF that] show ?thesis
    proof
      assume "new_user s c = Some (snd entry)"
      then show ?thesis by simp
    next
      assume "\<exists>old. (fst entry, old) \<in> set (users s) \<and> snd entry = old\<lparr>lastSeen := lastSeen (snd entry)\<rparr>"
      then obtain old where old: "(fst entry, old) \<in> set (users s)"
        "snd entry = old\<lparr>lastSeen := lastSeen (snd entry)\<rparr>" by blast
      from old(2) have "color (snd entry) = color (old\<lparr>lastSeen := lastSeen (snd entry)\<rparr>)"
        by simp
      then have "color (snd entry) = color old" by simp
      with old show ?thesis by blast
    qed
  qed
  ultimately show ?thesis by blast
qed

theorem color_palette_immutable_witness:
  "list_all op_ok join_ops
   \<and> map snd (users (run (getStore None) join_ops)) = [alice, bob]
   \<and> color alice = ''#e74c3c'' \<and> color alice \<in> set colors
   \<and> color bob = ''#3498db'' \<and> color bob \<in> set colors
   \<and> map (\<lambda>entry. color (snd entry))
        (users (run (getStore None) (join_ops @ [AddUser ''Alice'' env2, UpdateUserSeen ''p07ab'' 60000])))
      = [''#e74c3c'', ''#3498db'']"
proof -
  have ok: "list_all op_ok join_ops"
    by (simp add: join_ops_def random_ok_def)
  note pal = color_palette_immutable [OF ok refl]
  have us: "map snd (users (run (getStore None) join_ops)) = [alice, bob]"
    by (simp add: run_join_ops two_users_def)
  from pal have "\<forall>u \<in> set (map snd (users (run (getStore None) join_ops))). color u \<in> set colors"
    by blast
  then have mem: "color alice \<in> set colors" "color bob \<in> set colors"
    by (simp_all add: us)
  have cols: "color alice = ''#e74c3c''" "color bob = ''#3498db''"
    by (simp_all add: alice_def bob_def)
  have after: "map (\<lambda>entry. color (snd entry))
        (users (run (getStore None) (join_ops @ [AddUser ''Alice'' env2, UpdateUserSeen ''p07ab'' 60000])))
      = [''#e74c3c'', ''#3498db'']"
    by (simp add: join_ops_def getStore_def addUser_def updateUserSeen_def Map_get_def Let_def
        getRandomColor_def colors_def env2_def)
  from ok us mem cols after show ?thesis by blast
qed









lemma pollSeen_messages: "messages (pollSeen s body t) = messages s"
  by (simp add: pollSeen_def updateUserSeen_def split: jsval.splits option.splits)

lemma getOnlineUsers_messages: "messages (snd (getOnlineUsers s now)) = messages s"
  by (simp add: getOnlineUsers_def Let_def)

lemma poll_response:
  "poll s (Some body) t1 t2 t3 =
     (Inr \<lparr>newMessages = pollDelta (messages s) (lastMessageId body),
           pollUsers = fst (getOnlineUsers (pollSeen s body t1) t2),
           pollStats = fst (getStats (snd (getOnlineUsers (pollSeen s body t1) t2)) t3)\<rparr>,
      snd (getStats (snd (getOnlineUsers (pollSeen s body t1) t2)) t3))"
  by (simp add: poll_def Let_def getMessages_def pollSeen_messages split: prod.splits)

lemma poll_messages: "messages (snd (poll s (Some body) t1 t2 t3)) = messages s"
  by (simp add: poll_response getStats_state getOnlineUsers_messages pollSeen_messages)

lemma pollDelta_found:
  assumes "c \<noteq> []" and "i < length msgs" and "mid (msgs ! i) = c" and "\<forall>j<i. mid (msgs ! j) \<noteq> c"
  shows "pollDelta msgs (Str c) = drop (Suc i) msgs"
proof -
  have "findIndex (\<lambda>m. Str (mid m) = Str c) msgs = Some i"
    using assms(2-4) by (intro findIndex_first) simp_all
  with assms(1) show ?thesis by (simp add: pollDelta_def)
qed

lemma pollDelta_full:
  assumes "\<not> truthy cursor \<or> (\<forall>m \<in> set msgs. Str (mid m) \<noteq> cursor)"
  shows "pollDelta msgs cursor = msgs"
proof (cases "truthy cursor")
  case False
  then show ?thesis by (simp add: pollDelta_def)
next
  case True
  with assms have "findIndex (\<lambda>m. Str (mid m) = cursor) msgs = None"
    by (simp add: findIndex_None)
  then show ?thesis by (simp add: pollDelta_def)
qed

text \<open>
  Claim C4, as the code has it. A poll whose body parses answers with a delta and leaves
  the log as it was. If the cursor is a non-empty string and \<open>i\<close> is the first position
  of the log whose message has that id, the delta is the messages strictly after position
  \<open>i\<close>. If the cursor is missing, empty or otherwise falsy, or equals the id of no
  message (no value that is not a string does), the delta is the whole log.
\<close>

theorem poll_delta:
  "\<exists>d s'. poll s (Some body) t1 t2 t3 = (Inr d, s')
     \<and> getMessages s' = getMessages s
     \<and> (\<forall>c i. lastMessageId body = Str c \<and> c \<noteq> [] \<and> i < length (getMessages s)
                \<and> mid (getMessages s ! i) = c \<and> (\<forall>j<i. mid (getMessages s ! j) \<noteq> c)
            \<longrightarrow> newMessages d = drop (Suc i) (getMessages s))
     \<and> (\<not> truthy (lastMessageId body) \<or> (\<forall>m \<in> set (getMessages s). Str (mid m) \<noteq> lastMessageId body)
            \<longrightarrow> newMessages d = getMessages s)"
proof -
  let ?d = "\<lparr>newMessages = pollDelta (messages s) (lastMessageId body),
           pollUsers = fst (getOnlineUsers (pollSeen s body t1) t2),
           pollStats = fst (getStats (snd (getOnlineUsers (pollSeen s body t1) t2)) t3)\<rparr>"
  let ?s' = "snd (getStats (snd (getOnlineUsers (pollSeen s body t1) t2)) t3)"
  have resp: "poll s (Some body) t1 t2 t3 = (Inr ?d, ?s')" by (rule poll_response)
  have log: "getMessages ?s' = getMessages s"
    using poll_messages [of s body t1 t2 t3] by (simp add: resp getMessages_def)
  have found: "\<forall>c i. lastMessageId body = Str c \<and> c \<noteq> [] \<and> i < length (getMessages s)
                \<and> mid (getMessages s ! i) = c \<and> (\<forall>j<i. mid (getMessages s ! j) \<noteq> c)
            \<longrightarrow> newMessages ?d = drop (Suc i) (getMessages s)"
    by (simp add: getMessages_def pollDelta_found)
  have full: "\<not> truthy (lastMessageId body) \<or> (\<forall>m \<in> set (getMessages s). Str (mid m) \<noteq> lastMessageId body)
            \<longrightarrow> newMessages ?d = getMessages s"
    using pollDelta_full [of "lastMessageId body" "messages s"] by (simp add: getMessages_def)
  from resp log found full show ?thesis by blast
qed

theorem poll_delta_witness:
  "getMessages chatting = [m1, m2, m3]
   \<and> mid m1 = ''aaa111''
   \<and> (\<exists>d s'. poll chatting (Some (cursor_only (Str ''aaa111''))) 45000 45000 45000 = (Inr d, s')
          \<and> newMessages d = [m2, m3])
   \<and> (\<exists>d s'. poll chatting (Some (cursor_only (Str ''nosuch''))) 45000 45000 45000 = (Inr d, s')
          \<and> newMessages d = [m1, m2, m3])
   \<and> (\<exists>d s'. poll chatting (Some (cursor_only Undefined)) 45000 45000 45000 = (Inr d, s')
          \<and> newMessages d = [m1, m2, m3])"
proof -
  have log: "getMessages chatting = [m1, m2, m3]"
    by (simp add: getMessages_def chatting_def)
  have ids: "mid m1 = ''aaa111''" "mid m2 = ''bbb222''" "mid m3 = ''ccc333''"
    by (simp_all add: m1_def m2_def m3_def)
  have cur: "lastMessageId (cursor_only c) = c" for c
    by (simp add: cursor_only_def)
  from poll_delta [of chatting "cursor_only (Str ''aaa111'')" 45000 45000 45000]
  obtain d s' where a: "poll chatting (Some (cursor_only (Str ''aaa111''))) 45000 45000 45000 = (Inr d, s')"
    and "\<forall>c i. lastMessageId (cursor_only (Str ''aaa111'')) = Str c \<and> c \<noteq> [] \<and> i < length (getMessages chatting)
                \<and> mid (getMessages chatting ! i) = c \<and> (\<forall>j<i. mid (getMessages chatting ! j) \<noteq> c)
            \<longrightarrow> newMessages d = drop (Suc i) (getMessages chatting)"
    by blast
  then have "lastMessageId (cursor_only (Str ''aaa111'')) = Str ''aaa111'' \<and> ''aaa111'' \<noteq> []
                \<and> 0 < length (getMessages chatting)
                \<and> mid (getMessages chatting ! 0) = ''aaa111'' \<and> (\<forall>j<0. mid (getMessages chatting ! j) \<noteq> ''aaa111'')
            \<longrightarrow> newMessages d = drop (Suc 0) (getMessages chatting)"
    by blast
  then have "newMessages d = [m2, m3]"
    by (simp add: cur log ids)
  with a have first: "\<exists>d s'. poll chatting (Some (cursor_only (Str ''aaa111''))) 45000 45000 45000 = (Inr d, s')
          \<and> newMessages d = [m2, m3]"
    by blast
  from poll_delta [of chatting "cursor_only (Str ''nosuch'')" 45000 45000 45000]
  obtain d2 s2 where b: "poll chatting (Some (cursor_only (Str ''nosuch''))) 45000 45000 45000 = (Inr d2, s2)"
    and "\<not> truthy (lastMessageId (cursor_only (Str ''nosuch'')))
           \<or> (\<forall>m \<in> set (getMessages chatting). Str (mid m) \<noteq> lastMessageId (cursor_only (Str ''nosuch'')))
            \<longrightarrow> newMessages d2 = getMessages chatting"
    by blast
  then have "newMessages d2 = [m1, m2, m3]"
    by (simp add: cur log ids)
  with b have second: "\<exists>d s'. poll chatting (Some (cursor_only (Str ''nosuch''))) 45000 45000 45000 = (Inr d, s')
          \<and> newMessages d = [m1, m2, m3]"
    by blast
  from poll_delta [of chatting "cursor_only Undefined" 45000 45000 45000]
  obtain d3 s3 where c: "poll chatting (Some (cursor_only Undefined)) 45000 45000 45000 = (Inr d3, s3)"
    and "\<not> truthy (lastMessageId (cursor_only Undefined))
           \<or> (\<forall>m \<in> set (getMessages chatting). Str (mid m) \<noteq> lastMessageId (cursor_only Undefined))
            \<longrightarrow> newMessages d3 = getMessages chatting"
    by blast
  then have "newMessages d3 = [m1, m2, m3]"
    by (simp add: cur log)
  with c have third: "\<exists>d s'. poll chatting (Some (cursor_only Undefined)) 45000 45000 45000 = (Inr d, s')
          \<and> newMessages d = [m1, m2, m3]"
    by blast
  show ?thesis by (intro conjI) (fact log ids(1) first second third)+
qed

lemma run_empty_id_log: "run (getStore None) empty_id_log = \<lparr>users = [], messages = [msg_empty_id]\<rparr>"
  by (simp add: empty_id_log_def getStore_def addMessage_def zero_draw_def msg_empty_id_def Let_def)

lemma run_same_draw_log:
  "run (getStore None) same_draw_log = \<lparr>users = [], messages = [msg_one, msg_two, msg_left]\<rparr>"
  by (simp add: same_draw_log_def getStore_def addMessage_def addSystemMessage_def env1_def env2_def
      msg_one_def msg_two_def msg_left_def Let_def)

text \<open>
  Claim C4 as stated fails in two ways. A message whose id is the empty string sits at
  position 0 and the cursor equals that id, yet the poll returns the whole log, not the
  (empty) rest: an empty cursor is falsy and is treated as no cursor. And when two
  messages share an id, a cursor equal to the id of the message at position 1 gives the
  messages after position 0, the first match, not those after position 1.
\<close>

theorem poll_delta_counterexample:
  "getMessages (run (getStore None) empty_id_log) = [msg_empty_id]
   \<and> mid (getMessages (run (getStore None) empty_id_log) ! 0) = []
   \<and> fst (poll (run (getStore None) empty_id_log) (Some (cursor_only (Str []))) 2000 2000 2000)
       = Inr \<lparr>newMessages = [msg_empty_id], pollUsers = [],
              pollStats = \<lparr>onlineUsers = 0, totalMessages = 1, userMessages = 1\<rparr>\<rparr>
   \<and> drop (Suc 0) (getMessages (run (getStore None) empty_id_log)) = []
   \<and> getMessages (run (getStore None) same_draw_log) = [msg_one, msg_two, msg_left]
   \<and> mid (getMessages (run (getStore None) same_draw_log) ! 1) = ''x1y2z3''
   \<and> fst (poll (run (getStore None) same_draw_log) (Some (cursor_only (Str ''x1y2z3''))) 60000 60000 60000)
       = Inr \<lparr>newMessages = [msg_two, msg_left], pollUsers = [],
              pollStats = \<lparr>onlineUsers = 0, totalMessages = 3, userMessages = 2\<rparr>\<rparr>
   \<and> drop (Suc 1) (getMessages (run (getStore None) same_draw_log)) = [msg_left]
   \<and> msg_two \<noteq> msg_left"
proof -
  have a: "getMessages (run (getStore None) empty_id_log) = [msg_empty_id]"
    by (simp add: run_empty_id_log getMessages_def)
  have b: "mid msg_empty_id = []" by (simp add: msg_empty_id_def)
  have mtypes: "mtype msg_empty_id = UserMsg" "mtype msg_one = UserMsg" "mtype msg_two = UserMsg"
    "mtype msg_left = SystemMsg"
    by (simp_all add: msg_empty_id_def msg_one_def msg_two_def msg_left_def)
  have c: "fst (poll (run (getStore None) empty_id_log) (Some (cursor_only (Str []))) 2000 2000 2000)
       = Inr \<lparr>newMessages = [msg_empty_id], pollUsers = [],
              pollStats = \<lparr>onlineUsers = 0, totalMessages = 1, userMessages = 1\<rparr>\<rparr>"
    by (simp add: run_empty_id_log poll_def pollSeen_def pollDelta_def cursor_only_def getMessages_def
        getOnlineUsers_def sweep_def getStats_def mtypes Let_def)
  have d: "getMessages (run (getStore None) same_draw_log) = [msg_one, msg_two, msg_left]"
    by (simp add: run_same_draw_log getMessages_def)
  have ids: "mid msg_one = ''x1y2z3''" "mid msg_two = ''x1y2z3''"
    by (simp_all add: msg_one_def msg_two_def)
  have e: "fst (poll (run (getStore None) same_draw_log) (Some (cursor_only (Str ''x1y2z3''))) 60000 60000 60000)
       = Inr \<lparr>newMessages = [msg_two, msg_left], pollUsers = [],
              pollStats = \<lparr>onlineUsers = 0, totalMessages = 3, userMessages = 2\<rparr>\<rparr>"
    by (simp add: run_same_draw_log poll_def pollSeen_def pollDelta_def cursor_only_def getMessages_def
        getOnlineUsers_def sweep_def getStats_def mtypes ids Let_def)
  have f: "msg_two \<noteq> msg_left" by (simp add: msg_two_def msg_left_def)
  from a b c d ids e f show ?thesis by simp
qed

lemma step_log: "\<exists>k. messages (step s c) = drop k (messages s @ created_by s c)"
proof -
  have same: ?thesis if "messages (step s c) = messages s" "created_by s c = []"
  proof -
    from that have "messages (step s c) = drop 0 (messages s @ created_by s c)" by simp
    then show ?thesis by (rule exI)
  qed
  have added: "\<exists>k. messages (snd (addMessage s name body col ty e))
      = drop k (messages s @ [fst (addMessage s name body col ty e)])" for name body col ty e
  proof (cases "length (messages s @ [fst (addMessage s name body col ty e)]) > 100")
    case True
    have tl_drop1: "tl zs = drop 1 zs" for zs :: "Message list"
      by (simp add: drop_Suc)
    from True have "messages (snd (addMessage s name body col ty e))
      = tl (messages s @ [fst (addMessage s name body col ty e)])"
      by (simp add: addMessage_def Let_def)
    then have "messages (snd (addMessage s name body col ty e))
      = drop 1 (messages s @ [fst (addMessage s name body col ty e)])"
      by (simp only: tl_drop1)
    then show ?thesis by (rule exI)
  next
    case False
    then have "messages (snd (addMessage s name body col ty e))
      = drop 0 (messages s @ [fst (addMessage s name body col ty e)])"
      by (simp add: addMessage_def Let_def)
    then show ?thesis by (rule exI)
  qed
  show ?thesis
  proof (cases c)
    case (AddMessage name body col ty e)
    with added show ?thesis by simp
  next
    case (AddSystemMessage body e)
    with added show ?thesis by (simp add: addSystemMessage_def)
  next
    case (AddUser name e)
    then show ?thesis by (intro same) (simp_all add: addUser_messages)
  next
    case (RemoveUser k)
    then show ?thesis by (intro same) (simp_all add: removeUser_def)
  next
    case (GetUser k)
    then show ?thesis by (intro same) simp_all
  next
    case (GetOnlineUsers now)
    then show ?thesis by (intro same) (simp_all add: getOnlineUsers_messages)
  next
    case (UpdateUserSeen k now)
    then show ?thesis by (intro same) (simp_all add: updateUserSeen_def split: option.splits)
  next
    case GetMessages
    then show ?thesis by (intro same) simp_all
  next
    case (GetStats now)
    then show ?thesis by (intro same) (simp_all add: getStats_state getOnlineUsers_messages)
  qed
qed

lemma drop_drop_append: "drop n (drop k xs @ ys) = drop (n + min k (length xs)) (xs @ ys)"
proof (cases "k \<le> length xs")
  case True
  then have "drop k xs @ ys = drop k (xs @ ys)" by simp
  with True show ?thesis by (simp add: min_def)
next
  case False
  then show ?thesis by (simp add: min_def)
qed

lemma run_log: "\<exists>k. messages (run s cs) = drop k (messages s @ created s cs)"
proof (induction cs arbitrary: s)
  case Nil
  have "messages (run s []) = drop 0 (messages s @ created s [])" by simp
  then show ?case by (rule exI)
next
  case (Cons c cs)
  from step_log obtain k where k: "messages (step s c) = drop k (messages s @ created_by s c)"
    by blast
  from Cons.IH obtain n where n: "messages (run (step s c) cs)
      = drop n (messages (step s c) @ created (step s c) cs)"
    by blast
  have "messages (run s (c # cs))
      = drop (n + min k (length (messages s @ created_by s c))) (messages s @ created s (c # cs))"
    by (simp add: n k drop_drop_append del: drop_append)
  then show ?case by (rule exI)
qed

lemma created_by_ids: "map mid (created_by s c) = drawn_id c"
  by (cases c) (simp_all add: addMessage_def addSystemMessage_def Let_def)

lemma created_ids: "map mid (created s cs) = concat (map drawn_id cs)"
  by (induction cs arbitrary: s) (simp_all add: created_by_ids)

text \<open>
  Claim C6, as the code has it. The id of a message is the string \<open>generateId()\<close>
  returned when the message was created, and it does not change afterwards: after any
  operation, and after any sequence of operations, the log is a suffix of the earlier log
  followed by the messages created since, each entry exactly as it was created. The
  store compares no ids, so the ids of all the messages a sequence creates (evicted ones
  included) are pairwise distinct exactly when the strings \<open>generateId()\<close> returned for
  them are pairwise distinct.
\<close>

theorem message_ids_stable:
  "map mid (created s ops) = concat (map drawn_id ops)
   \<and> distinct (map mid (created s ops)) = distinct (concat (map drawn_id ops))
   \<and> (\<exists>k. messages (step s c) = drop k (messages s @ created_by s c))
   \<and> (\<exists>k. messages (run s ops) = drop k (messages s @ created s ops))"
  using created_ids [of s ops] step_log [of s c] run_log [of s ops]
  by (intro conjI) simp_all

theorem message_ids_stable_witness:
  "created (getStore None) same_draw_log = [msg_one, msg_two, msg_left]
   \<and> concat (map drawn_id same_draw_log) = [''x1y2z3'', ''x1y2z3'', ''q8r7s6'']
   \<and> map mid (created (getStore None) same_draw_log) = [''x1y2z3'', ''x1y2z3'', ''q8r7s6'']
   \<and> messages (run (getStore None) same_draw_log) = drop 0 ([] @ [msg_one, msg_two, msg_left])"
proof -
  have drawn: "concat (map drawn_id same_draw_log) = [''x1y2z3'', ''x1y2z3'', ''q8r7s6'']"
    by (simp add: same_draw_log_def env1_def env2_def)
  from message_ids_stable [of "getStore None" same_draw_log]
  have ids: "map mid (created (getStore None) same_draw_log) = concat (map drawn_id same_draw_log)"
    by (rule conjunct1)
  have made: "created (getStore None) same_draw_log = [msg_one, msg_two, msg_left]"
    by (simp add: same_draw_log_def getStore_def addMessage_def addSystemMessage_def env1_def env2_def
        msg_one_def msg_two_def msg_left_def Let_def)
  have log: "messages (run (getStore None) same_draw_log) = drop 0 ([] @ [msg_one, msg_two, msg_left])"
    by (simp add: run_same_draw_log)
  from made drawn ids log show ?thesis by simp
qed

text \<open>
  Claim C6 as stated fails: when \<open>generateId()\<close> returns the same string for two calls,
  \<open>addMessage\<close> gives both messages that id, and both are in the log.
\<close>

theorem message_ids_counterexample:
  "created (getStore None) same_draw_log = [msg_one, msg_two, msg_left]
   \<and> getMessages (run (getStore None) same_draw_log) = [msg_one, msg_two, msg_left]
   \<and> msg_one \<noteq> msg_two
   \<and> mid msg_one = mid msg_two
   \<and> \<not> distinct (map mid (created (getStore None) same_draw_log))"
proof -
  have made: "created (getStore None) same_draw_log = [msg_one, msg_two, msg_left]"
    by (simp add: same_draw_log_def getStore_def addMessage_def addSystemMessage_def env1_def env2_def
        msg_one_def msg_two_def msg_left_def Let_def)
  have log: "getMessages (run (getStore None) same_draw_log) = [msg_one, msg_two, msg_left]"
    by (simp add: run_same_draw_log getMessages_def)
  have ne: "msg_one \<noteq> msg_two" by (simp add: msg_one_def msg_two_def)
  have ids: "mid msg_one = mid msg_two" by (simp add: msg_one_def msg_two_def)
  from made log ne ids show ?thesis by simp
qed

end
